theory Spec2Isabelle
  imports Main
begin

section \<open>Characters and strings\<close>

text \<open>
  A JavaScript string is a sequence of UTF-16 code units. The model writes a code unit as a
  natural number (the units of a JavaScript string are the numbers below 65536) and a
  string as the list of its units. \<open>str\<close> gives the units of a string literal.

  The white space of \<open>\s\<close>, \<open>trim\<close> and \<open>trimRight\<close> is the white space and the line
  terminators of ECMAScript: TAB, LF, VT, FF, CR, SPACE, NO-BREAK SPACE (160), the other
  space separators of Unicode (5760, 8192 to 8202, 8239, 8287, 12288), LINE SEPARATOR
  (8232), PARAGRAPH SEPARATOR (8233) and the byte order mark (65279). The word characters
  of \<open>\w\<close> and \<open>\b\<close> are the ASCII letters, the digits and the underscore: none of the regular
  expressions has the flag \<open>u\<close>.
\<close>

type_synonym jstring = "nat list"

definition str :: "string \<Rightarrow> jstring" where
  "str s = map of_char s"

definition is_space :: "nat \<Rightarrow> bool" where
  "is_space n =
     ((9 \<le> n \<and> n \<le> 13) \<or> n = 32 \<or> n = 160 \<or> n = 5760 \<or> (8192 \<le> n \<and> n \<le> 8202) \<or>
      n = 8232 \<or> n = 8233 \<or> n = 8239 \<or> n = 8287 \<or> n = 12288 \<or> n = 65279)"

definition is_word :: "nat \<Rightarrow> bool" where
  "is_word n = ((48 \<le> n \<and> n \<le> 57) \<or> (65 \<le> n \<and> n \<le> 90) \<or> n = 95 \<or> (97 \<le> n \<and> n \<le> 122))"

definition trimRight :: "jstring \<Rightarrow> jstring" where
  "trimRight s = rev (dropWhile is_space (rev s))"

definition trim :: "jstring \<Rightarrow> jstring" where
  "trim s = trimRight (dropWhile is_space s)"

definition startsWith :: "jstring \<Rightarrow> jstring \<Rightarrow> bool" where
  "startsWith s p = (take (length p) s = p)"

text \<open>
  \<open>String.prototype.toUpperCase\<close> is a function of the JavaScript runtime. It maps the
  code points of a string by the case mapping of the Unicode Character Database, and what
  it returns may be longer than its argument (the one unit 223 becomes the two units of
  \<open>SS\<close>). The model takes the function as a parameter, written \<open>toUpperCase\<close> in the
  definitions below.

  \<open>canonicalize\<close> is the operation Canonicalize of ECMAScript for a regular expression with
  the flag \<open>i\<close> and without the flag \<open>u\<close>: a unit stands for its upper case when that is one
  unit, except that a unit from 128 on never stands for an ASCII one.
\<close>

definition canonicalize :: "(jstring \<Rightarrow> jstring) \<Rightarrow> nat \<Rightarrow> nat" where
  "canonicalize toUpperCase ch =
     (let u = toUpperCase [ch] in
      if length u \<noteq> 1 then ch
      else let cu = hd u in if 128 \<le> ch \<and> cu < 128 then ch else cu)"

section \<open>Regular expressions\<close>

text \<open>
  The regular expressions of the formatter use one-character classes, greedy \<open>*\<close> and \<open>+\<close>
  over such classes, the assertions \<open>^\<close>, \<open>$\<close> and \<open>\b\<close>, one optional group, alternation
  inside lookaheads, positive and negative lookahead, and capture groups. A pattern is a list
  of nodes, matched in sequence. Every pattern carries the flag \<open>i\<close>, so a literal character
  matches the units with its canonical form (\<open>ci\<close>). The classes are \<open>\s\<close> (\<open>is_space\<close>), \<open>\S\<close>
  (\<open>nonspace\<close>), \<open>\w\<close> (\<open>is_word\<close>), \<open>.\<close> (\<open>any_char\<close>: all but the line terminators LF, CR,
  8232 and 8233), \<open>[ \t]\<close> (\<open>blank\<close>) and \<open>[^\s/]\<close> (\<open>trigger_tail\<close>); the flag \<open>i\<close> leaves them as
  they are, since no unit outside such a class has its canonical form in common with a
  unit of the class.
\<close>

datatype node =
    One "nat \<Rightarrow> bool"
  | Many "nat \<Rightarrow> bool"
  | Many1 "nat \<Rightarrow> bool"
  | Bol
  | Eol
  | WordBoundary
  | Maybe "node list"
  | Or "node list" "node list"
  | Lookahead "node list"
  | NegLookahead "node list"
  | Group nat "node list"
  | GroupEnd nat nat

primrec weight :: "node \<Rightarrow> nat" where
  "weight (One p) = 1"
| "weight (Many p) = 1"
| "weight (Many1 p) = 3"
| "weight Bol = 1"
| "weight Eol = 1"
| "weight WordBoundary = 1"
| "weight (Maybe g) = Suc (sum_list (map weight g))"
| "weight (Or g h) = Suc (sum_list (map weight g) + sum_list (map weight h))"
| "weight (Lookahead g) = Suc (sum_list (map weight g))"
| "weight (NegLookahead g) = Suc (sum_list (map weight g))"
| "weight (Group n g) = Suc (Suc (sum_list (map weight g)))"
| "weight (GroupEnd n i) = 1"

definition ci :: "(jstring \<Rightarrow> jstring) \<Rightarrow> nat \<Rightarrow> nat \<Rightarrow> bool" where
  "ci toUpperCase a x = (canonicalize toUpperCase x = canonicalize toUpperCase a)"

definition lit :: "(jstring \<Rightarrow> jstring) \<Rightarrow> jstring \<Rightarrow> node list" where
  "lit toUpperCase s = map (\<lambda>a. One (ci toUpperCase a)) s"

definition any_char :: "nat \<Rightarrow> bool" where
  "any_char x = (x \<noteq> 10 \<and> x \<noteq> 13 \<and> x \<noteq> 8232 \<and> x \<noteq> 8233)"

definition blank :: "nat \<Rightarrow> bool" where
  "blank x = ([x] = str '' '' \<or> x = 9)"

definition nonspace :: "nat \<Rightarrow> bool" where
  "nonspace x = (\<not> is_space x)"

definition trigger_tail :: "nat \<Rightarrow> bool" where
  "trigger_tail x = (\<not> is_space x \<and> [x] \<noteq> str ''/'')"

text \<open>
  The matcher works on a position of the subject string, held as the units before it
  (nearest first) and the units from it on, and on the captures made so far. It
  backtracks as the ECMAScript matcher does: a greedy \<open>Many\<close> tries its longest run first and
  gives units back while the rest of the pattern fails, an optional group and the left
  alternative are tried first. \<open>GroupEnd n i\<close> closes group \<open>n\<close>, opened when \<open>i\<close> units
  had been read.
\<close>

type_synonym captures = "nat \<Rightarrow> jstring option"

type_synonym mstate = "jstring \<times> jstring \<times> captures"

definition word_before :: "jstring \<Rightarrow> bool" where
  "word_before b = (case b of [] \<Rightarrow> False | x # _ \<Rightarrow> is_word x)"

definition boundary :: "jstring \<Rightarrow> jstring \<Rightarrow> bool" where
  "boundary b r = (word_before b \<noteq> word_before r)"

function run :: "node list \<Rightarrow> mstate \<Rightarrow> mstate option" where
  "run [] st = Some st"
| "run (One p # k) (b, r, c) =
     (case r of [] \<Rightarrow> None | x # xs \<Rightarrow> if p x then run k (x # b, xs, c) else None)"
| "run (Many p # k) (b, r, c) =
     (case r of
        [] \<Rightarrow> run k (b, r, c)
      | x # xs \<Rightarrow>
          if p x then
            (case run (Many p # k) (x # b, xs, c) of
               Some s \<Rightarrow> Some s
             | None \<Rightarrow> run k (b, r, c))
          else run k (b, r, c))"
| "run (Many1 p # k) st = run (One p # Many p # k) st"
| "run (Bol # k) (b, r, c) = (if b = [] then run k (b, r, c) else None)"
| "run (Eol # k) (b, r, c) = (if r = [] then run k (b, r, c) else None)"
| "run (WordBoundary # k) (b, r, c) = (if boundary b r then run k (b, r, c) else None)"
| "run (Maybe g # k) st = (case run (g @ k) st of Some s \<Rightarrow> Some s | None \<Rightarrow> run k st)"
| "run (Or g h # k) st = (case run (g @ k) st of Some s \<Rightarrow> Some s | None \<Rightarrow> run (h @ k) st)"
| "run (Lookahead g # k) st = (case run g st of Some s \<Rightarrow> run k st | None \<Rightarrow> None)"
| "run (NegLookahead g # k) st = (case run g st of Some s \<Rightarrow> None | None \<Rightarrow> run k st)"
| "run (Group n g # k) (b, r, c) = run (g @ GroupEnd n (length b) # k) (b, r, c)"
| "run (GroupEnd n i # k) (b, r, c) = run k (b, r, c(n \<mapsto> rev (take (length b - i) b)))"
  by pat_completeness auto
termination
  by (relation "measure (\<lambda>(ns, (b, r, c)). sum_list (map weight ns) + length r)") auto

text \<open>
  One attempt at one position: the matched text, the text after it and the captures.
\<close>

definition exec :: "node list \<Rightarrow> jstring \<Rightarrow> jstring \<Rightarrow> (jstring \<times> jstring \<times> captures) option" where
  "exec ns b r =
     (case run ns (b, r, (\<lambda>n. None)) of
        None \<Rightarrow> None
      | Some (b', r', c) \<Rightarrow> Some (rev (take (length b' - length b) b'), r', c))"

text \<open>
  \<open>String.prototype.replace\<close> with a pattern without the flag \<open>g\<close>: the first position, from
  the left, where the pattern matches is replaced by what the replacer returns, and the rest
  of the line is kept.
\<close>

fun replace_first ::
  "node list \<Rightarrow> (jstring \<Rightarrow> captures \<Rightarrow> jstring) \<Rightarrow> jstring \<Rightarrow> jstring \<Rightarrow> jstring" where
  "replace_first ns f b r =
     (case exec ns b r of
        Some (m, r', c) \<Rightarrow> f m c @ r'
      | None \<Rightarrow> (case r of [] \<Rightarrow> [] | x # xs \<Rightarrow> x # replace_first ns f (x # b) xs))"

text \<open>
  With the flag \<open>g\<close> every match is replaced, the search going on where the last match
  ended; after an empty match it moves one unit on. The matcher always sees the
  original line before the position.
\<close>

function replace_all ::
  "node list \<Rightarrow> (jstring \<Rightarrow> captures \<Rightarrow> jstring) \<Rightarrow> jstring \<Rightarrow> jstring \<Rightarrow> jstring" where
  "replace_all ns f b r =
     (case exec ns b r of
        Some (m, r', c) \<Rightarrow>
          if length r' < length r then f m c @ replace_all ns f (rev m @ b) r'
          else f m c @ (case r of [] \<Rightarrow> [] | x # xs \<Rightarrow> x # replace_all ns f (x # b) xs)
      | None \<Rightarrow> (case r of [] \<Rightarrow> [] | x # xs \<Rightarrow> x # replace_all ns f (x # b) xs))"
  by pat_completeness auto
termination
  by (relation "measure (\<lambda>(ns, f, b, r). length r)") auto

text \<open>
  The text of a capture group as a replacer receives it; a group that took no part in the
  match reads as the empty string (\<open>rest || ""\<close> in the source).
\<close>

definition group :: "captures \<Rightarrow> nat \<Rightarrow> jstring" where
  "group c n = (case c n of None \<Rightarrow> [] | Some s \<Rightarrow> s)"

section \<open>The formatter\<close>

text \<open>
  The keyword tables come from the module \<open>./constants\<close>. They are parameters of the model.
  Each entry is spliced into a regular expression as it is, so the model reads an entry as a
  literal token.
\<close>

record constants =
  VarsKeywords :: "jstring list"
  ScopedVarPrefixes :: "jstring list"
  ControlKeywords :: "jstring list"

definition isCommentLine :: "jstring \<Rightarrow> bool" where
  "isCommentLine line = startsWith (trim line) (str ''//'')"

text \<open>\<open>/(\bon=@\w+\b[^\s/]*)(?!\S)/gi\<close>\<close>

definition triggerPattern :: "(jstring \<Rightarrow> jstring) \<Rightarrow> node list" where
  "triggerPattern toUpperCase =
     [Group 1 ([WordBoundary] @ lit toUpperCase (str ''on=@'') @
        [Many1 is_word, WordBoundary, Many trigger_tail]),
      NegLookahead [One nonspace]]"

definition formatTriggers :: "(jstring \<Rightarrow> jstring) \<Rightarrow> jstring \<Rightarrow> jstring" where
  "formatTriggers toUpperCase sourceLine =
     replace_all (triggerPattern toUpperCase) (\<lambda>m c. toUpperCase m) [] sourceLine"

text \<open>\<open>new RegExp(`^[ \\t]*${varKeyword}=`, "i")\<close>, replaced by the string
  \<open>`${varKeyword.toUpperCase()}=`\<close>\<close>

definition assignmentPattern :: "(jstring \<Rightarrow> jstring) \<Rightarrow> jstring \<Rightarrow> node list" where
  "assignmentPattern toUpperCase varKeyword =
     [Bol, Many blank] @ lit toUpperCase varKeyword @ lit toUpperCase (str ''='')"

fun formatAssignmentKeywords ::
  "(jstring \<Rightarrow> jstring) \<Rightarrow> jstring list \<Rightarrow> jstring \<Rightarrow> jstring" where
  "formatAssignmentKeywords toUpperCase [] sourceLine = sourceLine"
| "formatAssignmentKeywords toUpperCase (varKeyword # rest) sourceLine =
     formatAssignmentKeywords toUpperCase rest
       (replace_first (assignmentPattern toUpperCase varKeyword)
          (\<lambda>m c. toUpperCase varKeyword @ str ''='') [] sourceLine)"

text \<open>\<open>new RegExp(`^(\\s*)(${prefix})(?=\\.|=)`, "i")\<close>\<close>

definition scopedPattern :: "(jstring \<Rightarrow> jstring) \<Rightarrow> jstring \<Rightarrow> node list" where
  "scopedPattern toUpperCase prefix =
     [Bol, Group 1 [Many is_space], Group 2 (lit toUpperCase prefix),
      Lookahead [Or (lit toUpperCase (str ''.'')) (lit toUpperCase (str ''=''))]]"

fun formatScopedAssignments ::
  "(jstring \<Rightarrow> jstring) \<Rightarrow> jstring list \<Rightarrow> jstring \<Rightarrow> jstring" where
  "formatScopedAssignments toUpperCase [] sourceLine = sourceLine"
| "formatScopedAssignments toUpperCase (prefix # rest) sourceLine =
     formatScopedAssignments toUpperCase rest
       (replace_first (scopedPattern toUpperCase prefix)
          (\<lambda>m c. group c 1 @ toUpperCase (group c 2)) [] sourceLine)"

text \<open>\<open>new RegExp(`^(\\s*)(${control})\\b`, "i")\<close>\<close>

definition controlPattern :: "(jstring \<Rightarrow> jstring) \<Rightarrow> jstring \<Rightarrow> node list" where
  "controlPattern toUpperCase control =
     [Bol, Group 1 [Many is_space], Group 2 (lit toUpperCase control), WordBoundary]"

fun formatControlKeywords ::
  "(jstring \<Rightarrow> jstring) \<Rightarrow> jstring list \<Rightarrow> jstring \<Rightarrow> jstring" where
  "formatControlKeywords toUpperCase [] sourceLine = sourceLine"
| "formatControlKeywords toUpperCase (control # rest) sourceLine =
     formatControlKeywords toUpperCase rest
       (replace_first (controlPattern toUpperCase control)
          (\<lambda>m c. group c 1 @ toUpperCase (group c 2)) [] sourceLine)"

text \<open>\<open>/^\s*\[(\w+)(\s+.*)?\]\s*$/i\<close>\<close>

definition sectionPattern :: "(jstring \<Rightarrow> jstring) \<Rightarrow> node list" where
  "sectionPattern toUpperCase =
     [Bol, Many is_space] @ lit toUpperCase (str ''['') @
     [Group 1 [Many1 is_word], Maybe [Group 2 [Many1 is_space, Many any_char]]] @
     lit toUpperCase (str '']'') @ [Many is_space, Eol]"

definition formatSectionHeaders :: "(jstring \<Rightarrow> jstring) \<Rightarrow> jstring \<Rightarrow> jstring" where
  "formatSectionHeaders toUpperCase sourceLine =
     replace_first (sectionPattern toUpperCase)
       (\<lambda>m c. str ''['' @ toUpperCase (group c 1) @ group c 2 @ str '']'') [] sourceLine"

text \<open>\<open>new RegExp(`\\b(${func})\\b(?=\\s|\\(|$)`, "gi")\<close>, replaced by the string
  \<open>func.toUpperCase()\<close>\<close>

definition commandKeywords :: "jstring list" where
  "commandKeywords =
     map str
       [''SAY'', ''EMOTE'', ''SYSMESSAGE'', ''DIALOG'', ''NEWITEM'', ''EQUIP'', ''UNEQUIP'',
        ''GO'', ''FACE'', ''FOLLOW'', ''SPEAK'', ''BOUNCE'', ''CONSUME'', ''REMOVE'']"

definition commandPattern :: "(jstring \<Rightarrow> jstring) \<Rightarrow> jstring \<Rightarrow> node list" where
  "commandPattern toUpperCase func =
     [WordBoundary, Group 1 (lit toUpperCase func), WordBoundary,
      Lookahead [Or [One is_space] [Or (lit toUpperCase (str ''('')) [Eol]]]]"

fun commandLoop :: "(jstring \<Rightarrow> jstring) \<Rightarrow> jstring list \<Rightarrow> jstring \<Rightarrow> jstring" where
  "commandLoop toUpperCase [] sourceLine = sourceLine"
| "commandLoop toUpperCase (func # rest) sourceLine =
     commandLoop toUpperCase rest
       (replace_all (commandPattern toUpperCase func) (\<lambda>m c. toUpperCase func) [] sourceLine)"

definition formatCommandCalls :: "(jstring \<Rightarrow> jstring) \<Rightarrow> jstring \<Rightarrow> jstring" where
  "formatCommandCalls toUpperCase sourceLine = commandLoop toUpperCase commandKeywords sourceLine"

definition formatLine :: "(jstring \<Rightarrow> jstring) \<Rightarrow> constants \<Rightarrow> jstring \<Rightarrow> jstring" where
  "formatLine toUpperCase K sourceLine =
     (if isCommentLine sourceLine then sourceLine
      else
        formatCommandCalls toUpperCase
          (formatControlKeywords toUpperCase (ControlKeywords K)
            (formatAssignmentKeywords toUpperCase (VarsKeywords K)
              (formatScopedAssignments toUpperCase (ScopedVarPrefixes K)
                (formatTriggers toUpperCase
                  (formatSectionHeaders toUpperCase sourceLine))))))"


section \<open>Formatting a document\<close>

text \<open>
  The host editor hands over a document: \<open>lineCount\<close> lines, and \<open>lineAt(i).text\<close> for the
  text of line \<open>i\<close>. The model is the list of the lines' texts; a text that is \<open>null\<close> or
  absent is \<open>None\<close>. Calling \<open>trimRight\<close> on such a text raises a \<open>TypeError\<close>.
\<close>

datatype error = TypeError

type_synonym document = "jstring option list"

record Position =
  pos_line :: nat
  pos_character :: nat

record Range =
  range_start :: Position
  range_end :: Position

record TextEdit =
  edit_range :: Range
  newText :: jstring

function editsLoop ::
  "(jstring \<Rightarrow> jstring) \<Rightarrow> constants \<Rightarrow> document \<Rightarrow> nat \<Rightarrow> TextEdit list \<Rightarrow> error + TextEdit list" where
  "editsLoop toUpperCase K document i textEdits =
     (if i < length document then
        (case document ! i of
           None \<Rightarrow> Inl TypeError
         | Some text \<Rightarrow>
             (let trimmedLine = trimRight text;
                  formattedLine = formatLine toUpperCase K trimmedLine;
                  startPos = \<lparr>pos_line = i, pos_character = 0\<rparr>;
                  endPos = \<lparr>pos_line = i, pos_character = length text\<rparr>;
                  range = \<lparr>range_start = startPos, range_end = endPos\<rparr>;
                  textEdit = \<lparr>edit_range = range, newText = formattedLine\<rparr>
              in editsLoop toUpperCase K document (Suc i) (textEdits @ [textEdit])))
      else Inr textEdits)"
  by pat_completeness auto
termination
  by (relation "measure (\<lambda>(U, K, document, i, textEdits). length document - i)") auto

definition provideDocumentFormattingEdits ::
  "(jstring \<Rightarrow> jstring) \<Rightarrow> constants \<Rightarrow> document \<Rightarrow> error + TextEdit list" where
  "provideDocumentFormattingEdits toUpperCase K document = editsLoop toUpperCase K document 0 []"

section \<open>The six-rule variant of the formatter\<close>

text \<open>
  A second version of the formatter (\<open>src/unnamed/part_001\<close>) has the same six rules under
  other names. Five of them look for a comment themselves before they rewrite; \<open>formatVars\<close>
  does not. Its control keywords come from the table \<open>Controls\<close>. The regular expressions
  are those of the first version.
\<close>

definition formatTriggers_variant :: "(jstring \<Rightarrow> jstring) \<Rightarrow> jstring \<Rightarrow> jstring" where
  "formatTriggers_variant toUpperCase line =
     (if startsWith (trim line) (str ''//'') then line
      else replace_all (triggerPattern toUpperCase) (\<lambda>m c. toUpperCase m) [] line)"

fun formatVars :: "(jstring \<Rightarrow> jstring) \<Rightarrow> jstring list \<Rightarrow> jstring \<Rightarrow> jstring" where
  "formatVars toUpperCase [] line = line"
| "formatVars toUpperCase (varKeyword # rest) line =
     formatVars toUpperCase rest
       (replace_first (assignmentPattern toUpperCase varKeyword)
          (\<lambda>m c. toUpperCase varKeyword @ str ''='') [] line)"

fun scopedVarsLoop :: "(jstring \<Rightarrow> jstring) \<Rightarrow> jstring list \<Rightarrow> jstring \<Rightarrow> jstring" where
  "scopedVarsLoop toUpperCase [] line = line"
| "scopedVarsLoop toUpperCase (prefix # rest) line =
     scopedVarsLoop toUpperCase rest
       (replace_first (scopedPattern toUpperCase prefix)
          (\<lambda>m c. group c 1 @ toUpperCase (group c 2)) [] line)"

definition formatScopedVars :: "(jstring \<Rightarrow> jstring) \<Rightarrow> jstring list \<Rightarrow> jstring \<Rightarrow> jstring" where
  "formatScopedVars toUpperCase prefixes line =
     (if startsWith (trim line) (str ''//'') then line else scopedVarsLoop toUpperCase prefixes line)"

fun controlsLoop :: "(jstring \<Rightarrow> jstring) \<Rightarrow> jstring list \<Rightarrow> jstring \<Rightarrow> jstring" where
  "controlsLoop toUpperCase [] line = line"
| "controlsLoop toUpperCase (control # rest) line =
     controlsLoop toUpperCase rest
       (replace_first (controlPattern toUpperCase control)
          (\<lambda>m c. group c 1 @ toUpperCase (group c 2)) [] line)"

definition formatControls :: "(jstring \<Rightarrow> jstring) \<Rightarrow> jstring list \<Rightarrow> jstring \<Rightarrow> jstring" where
  "formatControls toUpperCase Controls line =
     (if startsWith (trim line) (str ''//'') then line else controlsLoop toUpperCase Controls line)"

definition formatSections :: "(jstring \<Rightarrow> jstring) \<Rightarrow> jstring \<Rightarrow> jstring" where
  "formatSections toUpperCase line =
     (if startsWith (trim line) (str ''//'') then line
      else replace_first (sectionPattern toUpperCase)
             (\<lambda>m c. str ''['' @ toUpperCase (group c 1) @ group c 2 @ str '']'') [] line)"

fun functionsLoop :: "(jstring \<Rightarrow> jstring) \<Rightarrow> jstring list \<Rightarrow> jstring \<Rightarrow> jstring" where
  "functionsLoop toUpperCase [] line = line"
| "functionsLoop toUpperCase (func # rest) line =
     functionsLoop toUpperCase rest
       (replace_all (commandPattern toUpperCase func) (\<lambda>m c. toUpperCase func) [] line)"

definition formatFunctions :: "(jstring \<Rightarrow> jstring) \<Rightarrow> jstring \<Rightarrow> jstring" where
  "formatFunctions toUpperCase line =
     (if startsWith (trim line) (str ''//'') then line
      else functionsLoop toUpperCase commandKeywords line)"

definition formatLine_variant ::
  "(jstring \<Rightarrow> jstring) \<Rightarrow> jstring list \<Rightarrow> jstring list \<Rightarrow> jstring list \<Rightarrow> jstring \<Rightarrow> jstring" where
  "formatLine_variant toUpperCase VarsKeywords' ScopedVarPrefixes' Controls line =
     (if \<not> startsWith (trim line) (str ''//'') then
        formatFunctions toUpperCase
          (formatControls toUpperCase Controls
            (formatVars toUpperCase VarsKeywords'
              (formatScopedVars toUpperCase ScopedVarPrefixes'
                (formatTriggers_variant toUpperCase
                  (formatSections toUpperCase line)))))
      else line)"

section \<open>Keyword tables\<close>

text \<open>
  An entry of a keyword table is a token: a non-empty word of ASCII letters, digits and
  underscores. Such an entry has no character that the regular expression or the
  replacement string it is spliced into would read as syntax.
\<close>

definition is_token :: "jstring \<Rightarrow> bool" where
  "is_token kw = (kw \<noteq> [] \<and> list_all is_word kw)"

definition tables_ok :: "constants \<Rightarrow> bool" where
  "tables_ok K =
     (list_all is_token (VarsKeywords K) \<and> list_all is_token (ScopedVarPrefixes K) \<and>
      list_all is_token (ControlKeywords K))"

text \<open>
  Modelled from the spec: the module \<open>formatter/constants.js\<close> with the tables
  \<open>VarsKeywords\<close>, \<open>ScopedVarPrefixes\<close> and \<open>ControlKeywords\<close> is not among the sources. The
  tables below hold the tokens that the specification and the doc comments of the formatter
  name for each category: \<open>defname\<close> as an assignment keyword, \<open>tag\<close> as a scoped prefix, and
  \<open>begin\<close>, \<open>end\<close>, \<open>if\<close>, \<open>endif\<close>, \<open>for\<close>, \<open>endfor\<close> as control keywords. They serve as the
  concrete tables of the examples; every general theorem takes the tables as a parameter.
\<close>

definition exampleConstants :: constants where
  "exampleConstants =
     \<lparr>VarsKeywords = [str ''DEFNAME''],
      ScopedVarPrefixes = [str ''TAG''],
      ControlKeywords = map str [''BEGIN'', ''END'', ''IF'', ''ENDIF'', ''FOR'', ''ENDFOR'']\<rparr>"

section \<open>The case mapping\<close>

text \<open>
  What the theorems below use of \<open>String.prototype.toUpperCase\<close>, whatever the version of
  Unicode the runtime follows. The function maps a string code point by code point, and an
  ASCII unit is a code point of its own, so the text before and after an ASCII unit is
  mapped by itself and the unit becomes its ASCII upper case (\<open>ascii_upper\<close>). The function
  maps its own results to themselves. Characters that are neither ASCII nor white space
  have an upper case that is not empty and has no white space, and the only ASCII units in
  it are capital letters (as in \<open>SS\<close> for 223, or \<open>FI\<close> for 64257).
\<close>

definition ascii_upper :: "nat \<Rightarrow> nat" where
  "ascii_upper a = (if 97 \<le> a \<and> a \<le> 122 then a - 32 else a)"

definition case_mapping :: "(jstring \<Rightarrow> jstring) \<Rightarrow> bool" where
  "case_mapping U =
     ((\<forall>s a t. a < 128 \<longrightarrow> U (s @ a # t) = U s @ ascii_upper a # U t) \<and>
      U [] = [] \<and>
      (\<forall>s. U (U s) = U s) \<and>
      (\<forall>s. s \<noteq> [] \<and> list_all (\<lambda>u. 128 \<le> u \<and> \<not> is_space u) s \<longrightarrow>
           U s \<noteq> [] \<and> list_all (\<lambda>u. \<not> is_space u \<and> (u < 128 \<longrightarrow> 65 \<le> u \<and> u \<le> 90)) (U s)))"

text \<open>
  A case mapping for the examples: that of Unicode on the characters of ISO Latin-1 (the
  units below 256), where 223 becomes \<open>SS\<close>, 181 becomes 924 and 255 becomes 376; every
  other unit is left as it is.
\<close>

definition latin1_upper :: "nat \<Rightarrow> jstring" where
  "latin1_upper a =
     (if a = 223 then str ''SS''
      else if a = 181 then [924]
      else if a = 255 then [376]
      else if (97 \<le> a \<and> a \<le> 122) \<or> (224 \<le> a \<and> a \<le> 254 \<and> a \<noteq> 247) then [a - 32]
      else [a])"

definition exampleUpperCase :: "jstring \<Rightarrow> jstring" where
  "exampleUpperCase s = concat (map latin1_upper s)"

section \<open>Closed forms\<close>

text \<open>
  The definitions of this section are not taken from the source. They say, without the
  matcher, where a pattern matches and what a rule returns; the lemmas below prove that the
  rules of the formatter compute exactly this. Units are written as numbers here: 32 is the
  space, 40 \<open>(\<close>, 46 \<open>.\<close>, 47 \<open>/\<close>, 61 \<open>=\<close>, 64 \<open>@\<close>, 91 \<open>[\<close>, 93 \<open>]\<close>, and 111, 110 are \<open>o\<close>, \<open>n\<close>.

  \<open>upcase\<close> puts the ASCII letters of a text in upper case, which is what \<open>toUpperCase\<close>
  does on a text of ASCII characters. \<open>cia\<close> compares two units by their ASCII upper case,
  which is what \<open>ci\<close> does when the first of them is ASCII; \<open>lita\<close> is \<open>lit\<close> with \<open>cia\<close>, and
  the patterns with an \<open>A\<close> are the patterns of the formatter with \<open>lita\<close>.
\<close>

definition upcase :: "jstring \<Rightarrow> jstring" where
  "upcase s = map ascii_upper s"

definition cia :: "nat \<Rightarrow> nat \<Rightarrow> bool" where
  "cia a x = (ascii_upper x = ascii_upper a)"

definition lita :: "jstring \<Rightarrow> node list" where
  "lita s = map (\<lambda>a. One (cia a)) s"

definition triggerPatternA :: "node list" where
  "triggerPatternA =
     [Group 1 ([WordBoundary] @ lita [111, 110, 61, 64] @
        [Many1 is_word, WordBoundary, Many trigger_tail]),
      NegLookahead [One nonspace]]"

definition assignmentPatternA :: "jstring \<Rightarrow> node list" where
  "assignmentPatternA varKeyword = [Bol, Many blank] @ lita varKeyword @ lita [61]"

definition scopedPatternA :: "jstring \<Rightarrow> node list" where
  "scopedPatternA prefix =
     [Bol, Group 1 [Many is_space], Group 2 (lita prefix), Lookahead [Or (lita [46]) (lita [61])]]"

definition controlPatternA :: "jstring \<Rightarrow> node list" where
  "controlPatternA control = [Bol, Group 1 [Many is_space], Group 2 (lita control), WordBoundary]"

definition sectionPatternA :: "node list" where
  "sectionPatternA =
     [Bol, Many is_space] @ lita [91] @
     [Group 1 [Many1 is_word], Maybe [Group 2 [Many1 is_space, Many any_char]]] @
     lita [93] @ [Many is_space, Eol]"

definition commandPatternA :: "jstring \<Rightarrow> node list" where
  "commandPatternA func =
     [WordBoundary, Group 1 (lita func), WordBoundary,
      Lookahead [Or [One is_space] [Or (lita [40]) [Eol]]]]"

text \<open>
  \<open>ci_prefix p t\<close>: the text \<open>t\<close> starts with the literal \<open>p\<close>, whatever the case of its
  ASCII letters.
\<close>

definition ci_prefix :: "jstring \<Rightarrow> jstring \<Rightarrow> bool" where
  "ci_prefix p t = (length p \<le> length t \<and> upcase (take (length p) t) = upcase p)"

text \<open>One pass of each loop over a keyword table, for one entry of the table.\<close>

definition assignOne :: "jstring \<Rightarrow> jstring \<Rightarrow> jstring" where
  "assignOne kw s =
     (if ci_prefix (kw @ [61]) (dropWhile blank s)
      then upcase kw @ [61] @ drop (Suc (length kw)) (dropWhile blank s) else s)"

definition follows_dot_eq :: "jstring \<Rightarrow> bool" where
  "follows_dot_eq r = (case r of [] \<Rightarrow> False | x # _ \<Rightarrow> x = 46 \<or> x = 61)"

definition scopedOne :: "jstring \<Rightarrow> jstring \<Rightarrow> jstring" where
  "scopedOne p s =
     (if ci_prefix p (dropWhile is_space s) \<and> follows_dot_eq (drop (length p) (dropWhile is_space s))
      then takeWhile is_space s @ upcase (take (length p) (dropWhile is_space s)) @
           drop (length p) (dropWhile is_space s)
      else s)"

definition controlOne :: "jstring \<Rightarrow> jstring \<Rightarrow> jstring" where
  "controlOne k s =
     (if ci_prefix k (dropWhile is_space s) \<and> \<not> word_before (drop (length k) (dropWhile is_space s))
      then takeWhile is_space s @ upcase (take (length k) (dropWhile is_space s)) @
           drop (length k) (dropWhile is_space s)
      else s)"

text \<open>
  A trigger at a position: no word character before it, \<open>on=@\<close>, a word, then the longest
  run of \<open>[^\s/]\<close>, after which the line ends or white space follows.
\<close>

definition space_follows :: "jstring \<Rightarrow> bool" where
  "space_follows r = (case r of [] \<Rightarrow> True | x # _ \<Rightarrow> is_space x)"

definition trig_len :: "jstring \<Rightarrow> nat" where
  "trig_len r = 4 + length (takeWhile is_word (drop 4 r)) +
     length (takeWhile trigger_tail (dropWhile is_word (drop 4 r)))"

definition trig_ok :: "jstring \<Rightarrow> jstring \<Rightarrow> bool" where
  "trig_ok b r = (\<not> word_before b \<and> ci_prefix [111, 110, 61, 64] r \<and> word_before (drop 4 r) \<and>
     space_follows (dropWhile trigger_tail (dropWhile is_word (drop 4 r))))"

text \<open>
  A command call at a position: no word character before it, the command name, and after it
  white space, an opening parenthesis or the end of the line.
\<close>

definition cmd_follows :: "jstring \<Rightarrow> bool" where
  "cmd_follows r = (case r of [] \<Rightarrow> True | x # _ \<Rightarrow> is_space x \<or> x = 40)"

definition cmd_ok :: "jstring \<Rightarrow> jstring \<Rightarrow> jstring \<Rightarrow> bool" where
  "cmd_ok func b r = (\<not> word_before b \<and> ci_prefix func r \<and> cmd_follows (drop (length func) r))"

text \<open>
  A pass with the flag \<open>g\<close> whose matches are given by \<open>ok\<close> and \<open>len\<close> marks the characters
  it replaces (\<open>mask\<close>); \<open>paint\<close> puts the marked characters of a line in upper case.
\<close>

function mask :: "(jstring \<Rightarrow> jstring \<Rightarrow> bool) \<Rightarrow> (jstring \<Rightarrow> nat) \<Rightarrow> jstring \<Rightarrow> jstring \<Rightarrow> bool list" where
  "mask ok len b [] = []"
| "mask ok len b (x # xs) =
     (if ok b (x # xs) \<and> 0 < len (x # xs) \<and> len (x # xs) \<le> length (x # xs)
      then replicate (len (x # xs)) True @
           mask ok len (rev (take (len (x # xs)) (x # xs)) @ b) (drop (len (x # xs)) (x # xs))
      else False # mask ok len (x # b) xs)"
  by pat_completeness auto

termination
  by (relation "measure (\<lambda>(ok, len, b, r). length r)") auto

definition paint :: "bool list \<Rightarrow> jstring \<Rightarrow> jstring" where
  "paint m s = map (\<lambda>(f, x). if f then ascii_upper x else x) (zip m s)"

text \<open>
  A section header: white space, \<open>[\<close>, a word \<open>w\<close>, the text \<open>g\<close> up to the last \<open>]\<close> of the
  line, and white space. The text \<open>g\<close> is empty, or it starts with white space and has no
  line terminator after its leading white space (\<open>\s+.*\<close>).
\<close>

definition sect_rest :: "jstring \<Rightarrow> jstring option" where
  "sect_rest r =
     (let body = trimRight r in
      if body = [] \<or> last body \<noteq> 93 then None
      else let g = butlast body in
        if g = [] \<or> (is_space (hd g) \<and> list_all any_char (dropWhile is_space g)) then Some g
        else None)"

definition sect :: "jstring \<Rightarrow> (jstring \<times> jstring) option" where
  "sect s =
     (case dropWhile is_space s of
        [] \<Rightarrow> None
      | x # t1 \<Rightarrow>
          if x = 91 \<and> word_before t1
          then map_option (\<lambda>g. (takeWhile is_word t1, g)) (sect_rest (dropWhile is_word t1))
          else None)"

definition sectionOne :: "jstring \<Rightarrow> jstring" where
  "sectionOne s =
     (case sect s of None \<Rightarrow> s | Some (w, g) \<Rightarrow> [91] @ upcase w @ g @ [93])"



text \<open>The edit that the loop of \<open>provideDocumentFormattingEdits\<close> builds for line \<open>i\<close> with text \<open>t\<close>.\<close>

definition lineEdit :: "(jstring \<Rightarrow> jstring) \<Rightarrow> constants \<Rightarrow> nat \<Rightarrow> jstring \<Rightarrow> TextEdit" where
  "lineEdit U K i t =
     \<lparr>edit_range = \<lparr>range_start = \<lparr>pos_line = i, pos_character = 0\<rparr>,
                    range_end = \<lparr>pos_line = i, pos_character = length t\<rparr>\<rparr>,
      newText = formatLine U K (trimRight t)\<rparr>"


section \<open>Rewriting as painting\<close>

text \<open>
  These definitions, too, are vocabulary of the proofs and not taken from the source.
  \<open>cle x y\<close>: the line \<open>y\<close> is the line \<open>x\<close> with some of its ASCII letters put in upper case.
  \<open>shpw p x y\<close>: \<open>y\<close> is \<open>x\<close> without some of its leading characters of the class \<open>p\<close>, and with
  some characters put in upper case. A character class is \<open>ucls\<close> when it does not tell a
  letter from its upper case.
\<close>


definition cle :: "jstring \<Rightarrow> jstring \<Rightarrow> bool" where
  "cle x y = list_all2 (\<lambda>a b. b = a \<or> b = ascii_upper a) x y"

definition shpw :: "(nat \<Rightarrow> bool) \<Rightarrow> jstring \<Rightarrow> jstring \<Rightarrow> bool" where
  "shpw p z z' = (\<exists>n. n \<le> length (takeWhile p z) \<and> cle (drop n z) z')"

abbreviation shp :: "jstring \<Rightarrow> jstring \<Rightarrow> bool" where
  "shp \<equiv> shpw blank"

definition ucls :: "(nat \<Rightarrow> bool) \<Rightarrow> bool" where
  "ucls p = (\<forall>x. p (ascii_upper x) = p x)"

text \<open>
  A rule is \<open>stable\<close> when it is idempotent, and a line it leaves alone is still left alone
  after some of its characters are put in upper case or a leading blank is taken away. It is
  \<open>good\<close> when moreover it only takes leading blanks away and puts characters in upper
  case. \<open>chain\<close> applies a list of rules from left to right.
\<close>

definition stable :: "(jstring \<Rightarrow> jstring) \<Rightarrow> bool" where
  "stable R =
     ((\<forall>z. R (R z) = R z) \<and>
      (\<forall>z z'. R z = z \<and> cle z z' \<longrightarrow> R z' = z') \<and>
      (\<forall>x z. blank x \<and> R (x # z) = x # z \<longrightarrow> R z = z))"

definition good :: "(jstring \<Rightarrow> jstring) \<Rightarrow> bool" where
  "good R = (stable R \<and> (\<forall>z. shp z (R z)))"

fun chain :: "(jstring \<Rightarrow> jstring) list \<Rightarrow> jstring \<Rightarrow> jstring" where
  "chain [] z = z"
| "chain (R # rs) z = chain rs (R z)"

text \<open>
  Rules that paint: the characters to put in upper case depend on the line only up to the
  case of its letters (\<open>masked\<close>). A pass with the flag \<open>g\<close> is of this kind when its matches
  depend on the text before them only through \<open>\b\<close> (\<open>scanner\<close>). \<open>head_mask\<close> marks \<open>n\<close>
  characters at offset \<open>off\<close> after the leading white space, \<open>strip_when\<close> takes the leading
  blanks away.
\<close>

definition masked :: "(jstring \<Rightarrow> bool list) \<Rightarrow> bool" where
  "masked M =
     ((\<forall>z. length (M z) = length z) \<and>
      (\<forall>z z'. upcase z = upcase z' \<longrightarrow> M z = M z') \<and>
      (\<forall>x z. blank x \<longrightarrow> M (x # z) = False # M z))"

definition scanner :: "(jstring \<Rightarrow> jstring \<Rightarrow> bool) \<Rightarrow> (jstring \<Rightarrow> nat) \<Rightarrow> bool" where
  "scanner ok len =
     ((\<forall>b b' r r'. word_before b = word_before b' \<and> upcase r = upcase r' \<longrightarrow>
         ok b r = ok b' r' \<and> len r = len r') \<and>
      (\<forall>b x r. is_space x \<longrightarrow> \<not> ok b (x # r)))"

definition head_mask ::
  "(nat \<Rightarrow> bool) \<Rightarrow> (jstring \<Rightarrow> bool) \<Rightarrow> nat \<Rightarrow> (jstring \<Rightarrow> nat) \<Rightarrow> jstring \<Rightarrow> bool list" where
  "head_mask sp cond off n z =
     (let t = dropWhile sp z in
      if cond t
      then replicate (length (takeWhile sp z) + off) False @ replicate (n t) True @
           replicate (length t - off - n t) False
      else replicate (length z) False)"

definition strip_when :: "(jstring \<Rightarrow> bool) \<Rightarrow> jstring \<Rightarrow> jstring" where
  "strip_when cond z = (if cond (dropWhile blank z) then dropWhile blank z else z)"

text \<open>
  Each rule of the formatter, as one or two rules of these kinds: the assignment rule takes
  the leading blanks away (\<open>assignStrip\<close>) and paints the keyword (\<open>assignPaint\<close>); the
  section rule takes the white space around the header away (\<open>sectionStrip\<close>) and paints its
  first word (\<open>sectionPaint\<close>). \<open>restRules\<close> lists the rules of \<open>formatLine\<close> after the
  trigger rule, in the order \<open>formatLine\<close> applies them.
\<close>

definition scopedCond :: "jstring \<Rightarrow> jstring \<Rightarrow> bool" where
  "scopedCond p t = (ci_prefix p t \<and> follows_dot_eq (drop (length p) t))"

definition controlCond :: "jstring \<Rightarrow> jstring \<Rightarrow> bool" where
  "controlCond k t = (ci_prefix k t \<and> \<not> word_before (drop (length k) t))"

definition assignStrip :: "jstring \<Rightarrow> jstring \<Rightarrow> jstring" where
  "assignStrip k = strip_when (ci_prefix (k @ [61]))"

definition assignPaint :: "jstring \<Rightarrow> jstring \<Rightarrow> jstring" where
  "assignPaint k z = paint (head_mask blank (ci_prefix (k @ [61])) 0 (\<lambda>t. length k) z) z"

definition commandOne :: "jstring \<Rightarrow> jstring \<Rightarrow> jstring" where
  "commandOne func z = paint (mask (cmd_ok func) (\<lambda>r. length func) [] z) z"

definition sectionStrip :: "jstring \<Rightarrow> jstring" where
  "sectionStrip z = (if sect z \<noteq> None then trim z else z)"

definition sectionPaint :: "jstring \<Rightarrow> jstring" where
  "sectionPaint z =
     paint (head_mask is_space (\<lambda>t. sect t \<noteq> None) 1 (\<lambda>t. length (takeWhile is_word (tl t))) z) z"

definition restRules :: "constants \<Rightarrow> (jstring \<Rightarrow> jstring) list" where
  "restRules K =
     map scopedOne (ScopedVarPrefixes K) @
     concat (map (\<lambda>k. [assignStrip k, assignPaint k]) (VarsKeywords K)) @
     map controlOne (ControlKeywords K) @ map commandOne commandKeywords"

text \<open>
  The trigger rule is the one rule that hands arbitrary text to \<open>toUpperCase\<close>, so it is not
  a painting rule: what it puts in place of a trigger may be longer than the trigger.
  \<open>trigs U b r\<close> is the text \<open>r\<close>, found after the text \<open>b\<close> (nearest unit first), with every
  trigger replaced by its upper case \<open>U\<close>.
\<close>

function trigs :: "(jstring \<Rightarrow> jstring) \<Rightarrow> jstring \<Rightarrow> jstring \<Rightarrow> jstring" where
  "trigs U b [] = []"
| "trigs U b (x # xs) =
     (if trig_ok b (x # xs)
      then U (take (trig_len (x # xs)) (x # xs)) @
           trigs U (rev (take (trig_len (x # xs)) (x # xs)) @ b) (drop (trig_len (x # xs)) (x # xs))
      else x # trigs U (x # b) xs)"
  by pat_completeness auto

termination
  by (relation "measure (\<lambda>(U, b, r). length r)") (auto simp: trig_len_def)


section \<open>Characters, the matcher and the patterns\<close>

abbreviation (input) "sectTail \<equiv> lita [93] @ [Many is_space, Eol]"

lemma ascii_upper_idem [simp]: "ascii_upper (ascii_upper x) = ascii_upper x"
  by (auto simp: ascii_upper_def)

lemma is_word_ascii_upper [simp]: "is_word (ascii_upper x) = is_word x"
  by (auto simp: is_word_def ascii_upper_def)

lemma is_space_ascii_upper [simp]: "is_space (ascii_upper x) = is_space x"
  by (auto simp: is_space_def ascii_upper_def)

lemma space_not_word: "is_space x \<Longrightarrow> \<not> is_word x"
  by (auto simp: is_space_def is_word_def)

lemma ascii_upper_nonword: "\<not> is_word x \<Longrightarrow> ascii_upper x = x"
  by (auto simp: ascii_upper_def is_word_def)

lemma ascii_upper_space: "is_space x \<Longrightarrow> ascii_upper x = x"
  by (simp add: ascii_upper_nonword space_not_word)

lemma blank_iff: "blank x = (x = 32 \<or> x = 9)"
  by (simp add: blank_def str_def)

lemma trigger_tail_iff: "trigger_tail x = (\<not> is_space x \<and> x \<noteq> 47)"
  by (simp add: trigger_tail_def str_def)

lemma blank_space: "blank x \<Longrightarrow> is_space x"
  by (auto simp: blank_iff is_space_def)

lemma ascii_upper_eq_nonword: "ascii_upper x = a \<Longrightarrow> \<not> is_word a \<Longrightarrow> x = a"
  by (metis is_word_ascii_upper ascii_upper_nonword)

lemma ci_word: "cia a x \<Longrightarrow> is_word x = is_word a"
  by (metis cia_def is_word_ascii_upper)

lemma ci_nonword: "\<not> is_word a \<Longrightarrow> cia a x = (x = a)"
  by (metis cia_def ascii_upper_eq_nonword ascii_upper_nonword)

lemma slash_eval: "\<not> is_word 47" "\<not> is_space 47" "\<not> is_word 91" "\<not> is_word 93"
  "\<not> is_word 61" "\<not> is_word 46" "\<not> is_word 40" "\<not> is_word 64"
  "\<not> is_space 91" "\<not> is_space 93"  "\<not> is_space 61" "\<not> is_space 46" "\<not> is_space 40" "\<not> is_space 64"
  by (simp_all add: is_word_def is_space_def)

lemma run_lit:
  "run (lita s @ k) (b, r, c) =
     (if length s \<le> length r \<and> upcase (take (length s) r) = upcase s
      then run k (rev (take (length s) r) @ b, drop (length s) r, c) else None)"
proof (induction s arbitrary: b r)
  case Nil
  then show ?case by (simp add: lita_def upcase_def)
next
  case (Cons a s)
  have l: "lita (a # s) = One (cia a) # lita s" by (simp add: lita_def)
  show ?case
  proof (cases r)
    case Nil
    then show ?thesis by (simp add: l)
  next
    case (Cons x xs)
    then show ?thesis using Cons.IH[of "x # b" xs]
      by (auto simp add: l cia_def upcase_def)
  qed
qed

lemma many_forced:
  assumes rej: "\<And>b' x r'. Q b' \<Longrightarrow> p x \<Longrightarrow> run k (b', x # r', c) = None"
    and step: "\<And>b' x. Q b' \<Longrightarrow> p x \<Longrightarrow> Q (x # b')"
    and q: "Q b"
  shows "run (Many p # k) (b, r, c) = run k (rev (takeWhile p r) @ b, dropWhile p r, c)"
  using q
proof (induction r arbitrary: b)
  case Nil
  then show ?case by simp
next
  case (Cons x xs)
  show ?case
  proof (cases "p x")
    case True
    have "run k (b, x # xs, c) = None" using rej[OF Cons.prems True] .
    then show ?thesis using True Cons.IH[OF step[OF Cons.prems True]]
      by (simp split: option.splits)
  next
    case False
    then show ?thesis by simp
  qed
qed

lemma many_sound:
  "run (Many p # k) (b, r, c) = Some st \<Longrightarrow>
   \<exists>n \<le> length (takeWhile p r). run k (rev (take n r) @ b, drop n r, c) = Some st"
proof (induction r arbitrary: b)
  case Nil
  then show ?case by simp
next
  case (Cons x xs)
  show ?case
  proof (cases "p x")
    case True
    show ?thesis
    proof (cases "run (Many p # k) (x # b, xs, c)")
      case None
      then have "run k (b, x # xs, c) = Some st" using Cons.prems True by simp
      then show ?thesis by (intro exI[of _ 0]) simp
    next
      case (Some s)
      then have "s = st" using Cons.prems True by simp
      then obtain n where "n \<le> length (takeWhile p xs)"
        "run k (rev (take n xs) @ x # b, drop n xs, c) = Some st"
        using Cons.IH[of "x # b"] Some by auto
      then show ?thesis using True by (intro exI[of _ "Suc n"]) simp
    qed
  next
    case False
    then show ?thesis using Cons.prems by (intro exI[of _ 0]) simp
  qed
qed

lemma many_complete:
  "n \<le> length (takeWhile p r) \<Longrightarrow> run k (rev (take n r) @ b, drop n r, c) \<noteq> None \<Longrightarrow>
   run (Many p # k) (b, r, c) \<noteq> None"
proof (induction r arbitrary: b n)
  case Nil
  then show ?case by simp
next
  case (Cons x xs)
  show ?case
  proof (cases "p x")
    case True
    show ?thesis
    proof (cases n)
      case 0
      then have "run k (b, x # xs, c) \<noteq> None" using Cons.prems by simp
      then show ?thesis using True by (cases "run (Many p # k) (x # b, xs, c)") auto
    next
      case (Suc m)
      then have "run (Many p # k) (x # b, xs, c) \<noteq> None"
        using Cons.IH[of m "x # b"] Cons.prems True by simp
      then show ?thesis using True by (cases "run (Many p # k) (x # b, xs, c)") auto
    qed
  next
    case False
    then show ?thesis using Cons.prems by (cases n) auto
  qed
qed

declare replace_first.simps [simp del] replace_all.simps [simp del]

lemma lit_append: "lita (s @ t) = lita s @ lita t"
  by (simp add: lita_def)

lemma run_lit_end:
  "run (lita s) (b, r, c) =
     (if ci_prefix s r then Some (rev (take (length s) r) @ b, drop (length s) r, c) else None)"
  using run_lit[of s "[]" b r c] by (simp add: ci_prefix_def)

lemma run_lit':
  "run (lita s @ k) (b, r, c) =
     (if ci_prefix s r then run k (rev (take (length s) r) @ b, drop (length s) r, c) else None)"
  using run_lit[of s k b r c] by (simp add: ci_prefix_def)

lemma ci_prefix_Cons:
  "ci_prefix (a # s) (x # r) = (ascii_upper x = ascii_upper a \<and> ci_prefix s r)"
  by (auto simp: ci_prefix_def upcase_def)

lemma ci_prefix_Nil [simp]: "ci_prefix [] r" "ci_prefix (a # s) [] = False"
  by (auto simp: ci_prefix_def upcase_def)

lemma ci_prefix_word_hd:
  "is_token kw \<Longrightarrow> ci_prefix (kw @ s) (x # r) \<Longrightarrow> is_word x"
  by (cases kw) (auto simp: is_token_def ci_prefix_Cons intro: is_word_ascii_upper[THEN iffD1] dest: arg_cong[where f = is_word])

lemma ci_prefix_space_hd:
  "is_token kw \<Longrightarrow> is_space x \<Longrightarrow> \<not> ci_prefix (kw @ s) (x # r)"
  using ci_prefix_word_hd space_not_word by blast

lemma many_forced0:
  assumes "\<And>b' x r'. p x \<Longrightarrow> run k (b', x # r', c) = None"
  shows "run (Many p # k) (b, r, c) = run k (rev (takeWhile p r) @ b, dropWhile p r, c)"
  by (rule many_forced[where Q = "\<lambda>_. True"]) (simp_all add: assms)

lemma list_all_word_upper: "list_all is_word (upcase m) = list_all is_word m"
  by (induction m) (simp_all add: upcase_def)

lemma ci_prefix_token: "is_token k \<Longrightarrow> ci_prefix k t \<Longrightarrow> is_token (take (length k) t)"
  unfolding is_token_def ci_prefix_def
  by (metis list_all_word_upper take_eq_Nil length_0_conv le_zero_eq)

lemma word_before_rev: "is_token m \<Longrightarrow> word_before (rev m @ b)"
  by (cases m rule: rev_cases) (simp_all add: is_token_def word_before_def)

lemma exec_bol: "b \<noteq> [] \<Longrightarrow> exec (Bol # k) b r = None"
  by (simp add: exec_def)

lemma replace_first_skip:
  assumes "\<And>b r. b \<noteq> [] \<Longrightarrow> exec ns b r = None"
  shows "b \<noteq> [] \<Longrightarrow> replace_first ns f b r = r"
proof (induction r arbitrary: b)
  case Nil
  then show ?case by (simp add: replace_first.simps assms)
next
  case (Cons x xs)
  then show ?case by (simp add: replace_first.simps[of ns f b "x # xs"] assms)
qed

lemma replace_first_bol:
  "replace_first (Bol # k) f [] s =
     (case exec (Bol # k) [] s of Some (m, r', c) \<Rightarrow> f m c @ r' | None \<Rightarrow> s)"
proof (cases "exec (Bol # k) [] s")
  case None
  have "replace_first (Bol # k) f [x] xs = xs" for x xs
    by (rule replace_first_skip) (simp_all add: exec_bol)
  then show ?thesis using None by (cases s) (simp_all add: replace_first.simps[of _ _ "[]"])
next
  case (Some a)
  then show ?thesis by (simp add: replace_first.simps[of _ _ "[]"])
qed

lemma exec_assignment:
  assumes "is_token kw"
  shows "exec (assignmentPatternA kw) [] s =
     (if ci_prefix (kw @ [61]) (dropWhile blank s)
      then Some (takeWhile blank s @ take (Suc (length kw)) (dropWhile blank s),
                 drop (Suc (length kw)) (dropWhile blank s), \<lambda>n. None)
      else None)"
proof -
  have rej: "run (lita (kw @ [61])) (b', x # r', c) = None" if "blank x" for b' x r' c
    using that assms by (simp add: run_lit_end ci_prefix_space_hd blank_space)
  have "run (Many blank # lita (kw @ [61])) ([], s, c) =
        run (lita (kw @ [61])) (rev (takeWhile blank s) @ [], dropWhile blank s, c)" for c
    by (rule many_forced0) (rule rej)
  then show ?thesis
    by (simp add: exec_def assignmentPatternA_def lit_append[symmetric] run_lit_end del: append_assoc)
qed

lemma replace_assignment:
  "is_token kw \<Longrightarrow>
   replace_first (assignmentPatternA kw) (\<lambda>m c. upcase kw @ [61]) [] s = assignOne kw s"
  using replace_first_bol[of "Many blank # lita kw @ lita [61]" _ s] exec_assignment[of kw s]
  by (simp add: assignmentPatternA_def assignOne_def)

lemma run_lookahead_dot_eq:
  "run (Lookahead [Or (lita [46]) (lita [61])] # k) (b, r, c) =
     (if follows_dot_eq r then run k (b, r, c) else None)"
  by (cases r) (auto simp: follows_dot_eq_def lita_def ci_nonword slash_eval split: option.splits)

lemma exec_scoped:
  assumes "is_token p"
  shows "exec (scopedPatternA p) [] s =
     (if ci_prefix p (dropWhile is_space s) \<and> follows_dot_eq (drop (length p) (dropWhile is_space s))
      then Some (takeWhile is_space s @ take (length p) (dropWhile is_space s),
                 drop (length p) (dropWhile is_space s),
                 (\<lambda>n. None)(1 \<mapsto> takeWhile is_space s, 2 \<mapsto> take (length p) (dropWhile is_space s)))
      else None)"
proof -
  let ?k = "GroupEnd 1 0 # Group 2 (lita p) # [Lookahead [Or (lita [46]) (lita [61])]]"
  let ?ws = "takeWhile is_space s" and ?t = "dropWhile is_space s"
  have rej: "run ?k (b', x # r', c) = None" if "is_space x" for b' x r' c
    using that assms ci_prefix_space_hd[of p x "[]" r'] by (simp add: run_lit')
  have head: "run (scopedPatternA p) ([], s, c) = run (Many is_space # ?k) ([], s, c)" for c
    by (simp add: scopedPatternA_def)
  have star: "run (Many is_space # ?k) ([], s, c) = run ?k (rev ?ws @ [], ?t, c)" for c
    by (rule many_forced0) (rule rej)
  have tail: "run ?k (rev ?ws @ [], ?t, c) =
     (if ci_prefix p ?t \<and> follows_dot_eq (drop (length p) ?t)
      then Some (rev (take (length p) ?t) @ rev ?ws, drop (length p) ?t,
                 c(1 \<mapsto> ?ws, 2 \<mapsto> take (length p) ?t))
      else None)" for c
    by (simp add: run_lit' run_lookahead_dot_eq del: run.simps(10))
  show ?thesis
    unfolding exec_def head star tail by simp
qed

lemma replace_scoped:
  "is_token p \<Longrightarrow>
   replace_first (scopedPatternA p) (\<lambda>m c. group c 1 @ upcase (group c 2)) [] s = scopedOne p s"
  using replace_first_bol[of "[Group 1 [Many is_space], Group 2 (lita p), Lookahead [Or (lita [46]) (lita [61])]]" _ s]
    exec_scoped[of p s]
  by (simp add: scopedPatternA_def scopedOne_def group_def)

lemma word_before_token:
  "is_token k \<Longrightarrow> ci_prefix k t \<Longrightarrow> word_before (rev (take (length k) t) @ b)"
  by (rule word_before_rev) (rule ci_prefix_token)

lemma exec_control:
  assumes "is_token k"
  shows "exec (controlPatternA k) [] s =
     (if ci_prefix k (dropWhile is_space s) \<and> \<not> word_before (drop (length k) (dropWhile is_space s))
      then Some (takeWhile is_space s @ take (length k) (dropWhile is_space s),
                 drop (length k) (dropWhile is_space s),
                 (\<lambda>n. None)(1 \<mapsto> takeWhile is_space s, 2 \<mapsto> take (length k) (dropWhile is_space s)))
      else None)"
proof -
  let ?k = "GroupEnd 1 0 # Group 2 (lita k) # [WordBoundary]"
  let ?ws = "takeWhile is_space s" and ?t = "dropWhile is_space s"
  have rej: "run ?k (b', x # r', c) = None" if "is_space x" for b' x r' c
    using that assms ci_prefix_space_hd[of k x "[]" r'] by (simp add: run_lit')
  have head: "run (controlPatternA k) ([], s, c) = run (Many is_space # ?k) ([], s, c)" for c
    by (simp add: controlPatternA_def)
  have star: "run (Many is_space # ?k) ([], s, c) = run ?k (rev ?ws @ [], ?t, c)" for c
    by (rule many_forced0) (rule rej)
  have tail: "run ?k (rev ?ws @ [], ?t, c) =
     (if ci_prefix k ?t \<and> \<not> word_before (drop (length k) ?t)
      then Some (rev (take (length k) ?t) @ rev ?ws, drop (length k) ?t,
                 c(1 \<mapsto> ?ws, 2 \<mapsto> take (length k) ?t))
      else None)" for c
    using word_before_token[OF assms, of ?t "rev ?ws"]
    by (simp add: run_lit' boundary_def)
  show ?thesis
    unfolding exec_def head star tail by simp
qed

lemma replace_control:
  "is_token k \<Longrightarrow>
   replace_first (controlPatternA k) (\<lambda>m c. group c 1 @ upcase (group c 2)) [] s = controlOne k s"
  using replace_first_bol[of "[Group 1 [Many is_space], Group 2 (lita k), WordBoundary]" _ s]
    exec_control[of k s]
  by (simp add: controlPatternA_def controlOne_def group_def)

lemma word_before_Cons [simp]: "word_before (x # r) = is_word x" and word_before_Nil [simp]: "\<not> word_before []"
  by (simp_all add: word_before_def)

lemma not_word_before_dropWhile: "\<not> word_before (dropWhile is_word r)"
  by (induction r) simp_all

lemma ci_prefix_on:
  assumes "ci_prefix [111, 110, 61, 64] r"
  shows "word_before r"
proof (cases r)
  case Nil
  then show ?thesis using assms by simp
next
  case (Cons x xs)
  from assms have "ascii_upper x = ascii_upper 111" using Cons by (simp add: ci_prefix_Cons)
  then have "is_word (ascii_upper x) = is_word (ascii_upper 111)" by simp
  then have "is_word x" by (simp add: is_word_def[of 111])
  then show ?thesis using Cons by simp
qed

lemma run_lit_on:
  "run (lita [111, 110, 61, 64] @ k) (b, r, c) =
     (if ci_prefix [111, 110, 61, 64] r then run k (rev (take 4 r) @ b, drop 4 r, c) else None)"
proof -
  have "length [111, 110, 61, 64 :: nat] = 4" by simp
  then show ?thesis using run_lit'[of "[111, 110, 61, 64]" k b r c] by (simp only:)
qed

lemma run_neg_nonspace:
  "run (NegLookahead [One nonspace] # k) (b, r, c) = (if space_follows r then run k (b, r, c) else None)"
  by (cases r) (simp_all add: space_follows_def nonspace_def)

lemma takeWhile_dropWhile_len:
  "take (length (takeWhile p r)) r = takeWhile p r" "drop (length (takeWhile p r)) r = dropWhile p r"
  by (induction r) simp_all

lemma exec_trigger:
  "exec triggerPatternA b r =
     (if trig_ok b r
      then Some (take (trig_len r) r, drop (trig_len r) r, (\<lambda>n. None)(1 \<mapsto> take (trig_len r) r))
      else None)"
proof (cases "boundary b r \<and> ci_prefix [111, 110, 61, 64] r \<and> word_before (drop 4 r)")
  case False
  then show ?thesis
    by (cases "drop 4 r") (auto simp add: exec_def triggerPatternA_def run_lit_on trig_ok_def boundary_def dest: ci_prefix_on simp del: run.simps(3))
next
  case True
  let ?i = "length b"
  let ?c0 = "(\<lambda>n. None) :: captures"
  let ?K2 = "GroupEnd 1 ?i # [NegLookahead [One nonspace]]"
  let ?K1 = "WordBoundary # Many trigger_tail # ?K2"
  let ?r1 = "drop 4 r" and ?b1 = "rev (take 4 r) @ b"
  let ?w = "takeWhile is_word ?r1" and ?r2 = "dropWhile is_word ?r1"
  let ?t = "takeWhile trigger_tail ?r2" and ?r3 = "dropWhile trigger_tail ?r2"
  from True obtain x xs where r1: "?r1 = x # xs" and x: "is_word x"
    by (cases ?r1) auto
  have nb: "\<not> word_before b" using True ci_prefix_on by (auto simp: boundary_def)
  have len4: "length (take 4 r) = 4" using True by (simp add: ci_prefix_def)
  have rej1: "run ?K1 (b', y # r', c) = None" if "word_before b'" "is_word y" for b' y r' c
    using that by (simp add: boundary_def)
  have s1: "run (Many is_word # ?K1) (x # ?b1, xs, ?c0) =
            run ?K1 (rev (takeWhile is_word xs) @ x # ?b1, dropWhile is_word xs, ?c0)"
  proof (rule many_forced[where Q = word_before])
    show "\<And>b' y r'. word_before b' \<Longrightarrow> is_word y \<Longrightarrow> run ?K1 (b', y # r', ?c0) = None"
      by (rule rej1)
    show "\<And>b' y. word_before b' \<Longrightarrow> is_word y \<Longrightarrow> word_before (y # b')" by simp
    show "word_before (x # ?b1)" using x by simp
  qed
  have s1': "run (Many is_word # ?K1) (x # ?b1, xs, ?c0) = run ?K1 (rev ?w @ ?b1, ?r2, ?c0)"
    unfolding s1 using r1 x by simp
  have wne: "?w \<noteq> []" using r1 x by simp
  have wb2: "word_before (rev ?w @ ?b1)"
  proof -
    have "is_token ?w" using wne by (auto simp: is_token_def list_all_iff dest: set_takeWhileD)
    then show ?thesis by (rule word_before_rev)
  qed
  have nw2: "\<not> word_before ?r2"
    by (rule not_word_before_dropWhile)
  have rej2: "run ?K2 (b', y # r', c) = None" if "trigger_tail y" for b' y r' c
    using that by (simp add: trigger_tail_iff nonspace_def)
  have s2: "run (Many trigger_tail # ?K2) (rev ?w @ ?b1, ?r2, ?c0) =
            run ?K2 (rev ?t @ rev ?w @ ?b1, ?r3, ?c0)"
    by (rule many_forced0) (rule rej2)
  have s3: "run ?K1 (rev ?w @ ?b1, ?r2, ?c0) = run ?K2 (rev ?t @ rev ?w @ ?b1, ?r3, ?c0)"
    using wb2 nw2 s2 by (simp add: boundary_def del: run.simps(3,13,11))
  have m: "take 4 r @ ?w @ ?t = take (trig_len r) r"
  proof -
    have "r = take 4 r @ ?w @ ?t @ ?r3" by (metis append_take_drop_id takeWhile_dropWhile_id)
    moreover have "trig_len r = length (take 4 r @ ?w @ ?t)" using len4 by (simp add: trig_len_def)
    ultimately show ?thesis by (metis append_eq_conv_conj append.assoc)
  qed
  have d: "?r3 = drop (trig_len r) r"
  proof -
    have "r = (take 4 r @ ?w @ ?t) @ ?r3" by (metis append_take_drop_id takeWhile_dropWhile_id append.assoc)
    moreover have "trig_len r = length (take 4 r @ ?w @ ?t)" using len4 by (simp add: trig_len_def)
    ultimately show ?thesis by (metis append_eq_conv_conj)
  qed
  have fin: "run ?K2 (rev ?t @ rev ?w @ ?b1, ?r3, ?c0) =
     (if space_follows ?r3 then Some (rev ?t @ rev ?w @ ?b1, ?r3, ?c0(1 \<mapsto> take 4 r @ ?w @ ?t)) else None)"
    by (simp add: run_neg_nonspace del: run.simps(11))
  have "run triggerPatternA (b, r, ?c0) = run (Many is_word # ?K1) (x # ?b1, xs, ?c0)"
    using True r1 x by (simp add: triggerPatternA_def run_lit_on del: run.simps(3))
  then have "run triggerPatternA (b, r, ?c0) =
     (if space_follows ?r3 then Some (rev ?t @ rev ?w @ ?b1, ?r3, ?c0(1 \<mapsto> take 4 r @ ?w @ ?t)) else None)"
    unfolding s1' s3 fin .
  moreover have "trig_ok b r = space_follows ?r3"
    using True nb by (simp add: trig_ok_def)
  ultimately show ?thesis
    by (simp add: exec_def m[symmetric] d[symmetric])
qed

lemma run_lookahead_cmd:
  "run (Lookahead [Or [One is_space] [Or (lita [40]) [Eol]]] # k) (b, r, c) =
     (if cmd_follows r then run k (b, r, c) else None)"
  by (cases r) (auto simp: cmd_follows_def lita_def ci_nonword slash_eval split: option.splits)

lemma cmd_follows_not_word: "cmd_follows r \<Longrightarrow> \<not> word_before r"
  by (cases r) (auto simp: cmd_follows_def space_not_word slash_eval)

lemma ci_prefix_token_word: "is_token k \<Longrightarrow> ci_prefix k r \<Longrightarrow> word_before r"
  using ci_prefix_word_hd[of k "[]"] by (cases r) (auto simp: is_token_def ci_prefix_def)

lemma exec_command:
  assumes "is_token func"
  shows "exec (commandPatternA func) b r =
     (if cmd_ok func b r
      then Some (take (length func) r, drop (length func) r, (\<lambda>n. None)(1 \<mapsto> take (length func) r))
      else None)"
proof -
  let ?n = "length func"
  have wb: "word_before (rev (take ?n r) @ b)" if "ci_prefix func r"
    using word_before_token[OF assms that] .
  have len: "length (take ?n r) = ?n" if "ci_prefix func r"
    using that by (simp add: ci_prefix_def)
  show ?thesis
    using wb len cmd_follows_not_word[of "drop ?n r"] ci_prefix_token_word[OF assms, of r]
    by (auto simp add: exec_def commandPatternA_def run_lit' run_lookahead_cmd boundary_def cmd_ok_def
        simp del: run.simps(10))
qed

declare mask.simps(2) [simp del]

lemma length_mask [simp]: "length (mask ok len b r) = length r"
proof (induction ok len b r rule: mask.induct)
  case (1 ok len b)
  then show ?case by simp
next
  case (2 ok len b x xs)
  then show ?case by (simp add: mask.simps(2))
qed

lemma paint_Nil [simp]: "paint [] s = []" "paint m [] = []"
  by (simp_all add: paint_def)

lemma paint_Cons [simp]: "paint (f # m) (x # s) = (if f then ascii_upper x else x) # paint m s"
  by (simp add: paint_def)

lemma paint_append: "length m = length s \<Longrightarrow> paint (m @ m') (s @ s') = paint m s @ paint m' s'"
  by (simp add: paint_def)

lemma paint_True: "paint (replicate (length s) True) s = upcase s"
  by (induction s) (simp_all add: upcase_def)

lemma length_paint [simp]: "length m = length s \<Longrightarrow> length (paint m s) = length s"
  by (simp add: paint_def)

lemma replace_all_mask:
  assumes ex: "\<And>b r. exec ns b r =
      (if ok b r then Some (take (len r) r, drop (len r) r, cap r) else None)"
    and pos: "\<And>b r. ok b r \<Longrightarrow> 0 < len r \<and> len r \<le> length r"
    and f: "\<And>b r. ok b r \<Longrightarrow> f (take (len r) r) (cap r) = upcase (take (len r) r)"
  shows "replace_all ns f b r = paint (mask ok len b r) r"
proof (induction "length r" arbitrary: b r rule: less_induct)
  case less
  show ?case
  proof (cases r)
    case Nil
    have "\<not> ok b []"
    proof
      assume "ok b []"
      from pos[OF this] show False by auto
    qed
    then show ?thesis using Nil by (simp add: replace_all.simps[of ns f b "[]"] ex)
  next
    case (Cons x xs)
    show ?thesis
    proof (cases "ok b r")
      case True
      let ?n = "len r"
      from pos[OF True] have n: "0 < ?n" "?n \<le> length r" by auto
      have IH: "replace_all ns f (rev (take ?n r) @ b) (drop ?n r) =
                paint (mask ok len (rev (take ?n r) @ b) (drop ?n r)) (drop ?n r)"
        by (rule less) (use n Cons in simp)
      let ?M = "mask ok len (rev (take ?n r) @ b) (drop ?n r)"
      have l: "length (take ?n r) = ?n" using n by simp
      have "paint (replicate ?n True @ ?M) r = paint (replicate ?n True @ ?M) (take ?n r @ drop ?n r)"
        by simp
      also have "\<dots> = paint (replicate ?n True) (take ?n r) @ paint ?M (drop ?n r)"
        by (rule paint_append) (use n in simp)
      also have "paint (replicate ?n True) (take ?n r) = upcase (take ?n r)"
        using paint_True[of "take ?n r"] by (simp only: l)
      finally have "paint (replicate ?n True @ ?M) r = upcase (take ?n r) @ paint ?M (drop ?n r)" .
      then have p: "paint (mask ok len b r) r =
          upcase (take ?n r) @ paint (mask ok len (rev (take ?n r) @ b) (drop ?n r)) (drop ?n r)"
        using True n Cons by (simp add: mask.simps(2))
      have "replace_all ns f b r = f (take ?n r) (cap r) @ replace_all ns f (rev (take ?n r) @ b) (drop ?n r)"
        using True n Cons by (subst replace_all.simps) (simp add: ex)
      then show ?thesis using p IH f[OF True] by simp
    next
      case False
      have IH: "replace_all ns f (x # b) xs = paint (mask ok len (x # b) xs) xs"
        by (rule less) (use Cons in simp)
      have "replace_all ns f b r = x # replace_all ns f (x # b) xs"
        using False Cons by (subst replace_all.simps) (simp add: ex)
      then show ?thesis using False Cons IH by (simp add: mask.simps(2))
    qed
  qed
qed

lemma trimRight_append_nonspace:
  "\<not> is_space x \<Longrightarrow> list_all is_space sp \<Longrightarrow> trimRight (g @ x # sp) = g @ [x]"
  by (simp add: trimRight_def list_all_iff dropWhile_append3)

lemma dropWhile_all: "list_all p xs \<Longrightarrow> dropWhile p xs = []" and takeWhile_all: "list_all p xs \<Longrightarrow> takeWhile p xs = xs"
  by (simp_all add: list_all_iff)

lemma run_tail:
  "run (lita [93] @ [Many is_space, Eol]) (b, r, c) =
     (case r of [] \<Rightarrow> None
      | x # sp \<Rightarrow> if x = 93 \<and> list_all is_space sp then Some (rev r @ b, [], c) else None)"
proof (cases r)
  case Nil
  then show ?thesis by (simp add: lita_def)
next
  case (Cons x sp)
  have "run (Many is_space # [Eol]) (b', sp, c) = run [Eol] (rev (takeWhile is_space sp) @ b', dropWhile is_space sp, c)" for b'
    by (rule many_forced0) simp
  then have "run (Many is_space # [Eol]) (b', sp, c) =
     (if list_all is_space sp then Some (rev sp @ b', [], c) else None)" for b'
    by (auto simp: dropWhile_all takeWhile_all list_all_iff dropWhile_eq_Nil_conv)
  then show ?thesis using Cons
    by (simp add: lita_def ci_nonword slash_eval del: run.simps(3))
qed

lemma take_le_takeWhile:
  assumes "n \<le> length (takeWhile p xs)"
  shows "list_all p (take n xs)"
proof -
  have "take n xs = take n (takeWhile p xs @ dropWhile p xs)" by simp
  also have "\<dots> = take n (takeWhile p xs)" using assms by (simp del: takeWhile_dropWhile_id)
  finally have "set (take n xs) \<subseteq> set (takeWhile p xs)" by (simp add: set_take_subset)
  then show ?thesis by (auto simp: list_all_iff dest: set_takeWhileD)
qed

lemma list_all_dropWhile: "list_all p xs \<Longrightarrow> list_all p (dropWhile q xs)"
  by (auto simp: list_all_iff dest: set_dropWhileD)

lemma group_tail_sound:
  assumes "run ([Group 2 [Many1 is_space, Many any_char]] @ sectTail) (b, r, c) = Some st"
  shows "\<exists>g sp. r = g @ 93 # sp \<and> g \<noteq> [] \<and> is_space (hd g) \<and>
            list_all any_char (dropWhile is_space g) \<and> list_all is_space sp \<and>
            st = (rev r @ b, [], c(2 \<mapsto> g))"
proof -
  let ?i = "length b"
  let ?K2 = "GroupEnd 2 ?i # sectTail"
  let ?K1 = "Many any_char # ?K2"
  from assms obtain x xs where r: "r = x # xs" and x: "is_space x"
    and 1: "run (Many is_space # ?K1) (x # b, xs, c) = Some st"
    by (cases r) (auto simp del: run.simps(3) split: if_splits)
  from many_sound[OF 1] obtain n1 where n1: "n1 \<le> length (takeWhile is_space xs)"
    and 2: "run ?K1 (rev (take n1 xs) @ x # b, drop n1 xs, c) = Some st" by blast
  from many_sound[OF 2] obtain n2 where n2: "n2 \<le> length (takeWhile any_char (drop n1 xs))"
    and 3: "run ?K2 (rev (take n2 (drop n1 xs)) @ rev (take n1 xs) @ x # b, drop n2 (drop n1 xs), c) = Some st"
    by blast
  let ?u = "x # take n1 xs" and ?v = "take n2 (drop n1 xs)" and ?r3 = "drop n2 (drop n1 xs)"
  have split: "r = (?u @ ?v) @ ?r3" using r by (simp add: take_add[symmetric] add.commute)
  have u: "list_all is_space ?u"
    using x take_le_takeWhile[OF n1] by simp
  have v: "list_all any_char ?v"
    using take_le_takeWhile[OF n2] .
  from 3 obtain sp where r3: "?r3 = 93 # sp" and sp: "list_all is_space sp"
    and st: "st = (rev ?r3 @ rev ?v @ rev (take n1 xs) @ x # b, [], c(2 \<mapsto> ?u @ ?v))"
    by (auto simp add: run_tail simp del: run.simps(3) split: list.splits if_splits)
  have "dropWhile is_space (?u @ ?v) = dropWhile is_space ?v"
    using u by (simp add: dropWhile_append3 list_all_iff dropWhile_append2)
  then have dv: "list_all any_char (dropWhile is_space (?u @ ?v))"
    using v by (simp add: list_all_dropWhile)
  have "rev r @ b = rev ?r3 @ rev ?v @ rev (take n1 xs) @ x # b"
    by (subst split) simp
  then show ?thesis
    using split r3 sp st dv x by (intro exI[of _ "?u @ ?v"] exI[of _ sp]) simp
qed

lemma group_tail_complete:
  assumes g: "g \<noteq> []" "is_space (hd g)" "list_all any_char (dropWhile is_space g)"
    and sp: "list_all is_space sp"
  shows "run ([Group 2 [Many1 is_space, Many any_char]] @ sectTail) (b, g @ 93 # sp, c) \<noteq> None"
proof -
  let ?i = "length b"
  let ?K2 = "GroupEnd 2 ?i # sectTail"
  let ?K1 = "Many any_char # ?K2"
  let ?r = "g @ 93 # sp"
  from g obtain x xs where gx: "g = x # xs" and x: "is_space x" by (cases g) auto
  let ?u = "takeWhile is_space xs" and ?v = "dropWhile is_space xs"
  have v: "list_all any_char ?v" using g(3) gx x by simp
  have xs: "xs @ 93 # sp = ?u @ ?v @ 93 # sp" by simp
  have tw1: "takeWhile is_space (xs @ 93 # sp) = ?u"
    by (simp add: takeWhile_append slash_eval) (metis (full_types) dropWhile_eq_Nil_conv takeWhile_eq_all_conv)
  have 3: "run ?K2 (rev ?v @ rev ?u @ x # b, 93 # sp, c) \<noteq> None"
    using sp by (simp add: run_tail del: run.simps(3))
  have tw2: "length ?v \<le> length (takeWhile any_char (?v @ 93 # sp))"
    using v by (simp add: takeWhile_append1 takeWhile_append2 list_all_iff takeWhile_append)
  have 2: "run ?K1 (rev ?u @ x # b, ?v @ 93 # sp, c) \<noteq> None"
    by (rule many_complete[OF tw2]) (use 3 in simp)
  have "run (Many is_space # ?K1) (x # b, xs @ 93 # sp, c) \<noteq> None"
  proof (rule many_complete[where n = "length ?u"])
    show "length ?u \<le> length (takeWhile is_space (xs @ 93 # sp))" by (simp add: tw1)
    have "take (length ?u) (xs @ 93 # sp) = ?u" "drop (length ?u) (xs @ 93 # sp) = ?v @ 93 # sp"
      by (subst xs, simp)+
    then show "run ?K1 (rev (take (length ?u) (xs @ 93 # sp)) @ x # b,
        drop (length ?u) (xs @ 93 # sp), c) \<noteq> None"
      using 2 by simp
  qed
  then show ?thesis using gx x by (simp del: run.simps(3))
qed

lemma sect_rest_decomp:
  assumes "list_all is_space sp"
  shows "sect_rest (g @ 93 # sp) =
     (if g = [] \<or> (is_space (hd g) \<and> list_all any_char (dropWhile is_space g)) then Some g else None)"
  using assms by (simp add: sect_rest_def trimRight_append_nonspace slash_eval)

lemma sect_rest_SomeD:
  assumes "sect_rest r = Some g"
  shows "\<exists>sp. r = g @ 93 # sp \<and> list_all is_space sp \<and>
     (g = [] \<or> (is_space (hd g) \<and> list_all any_char (dropWhile is_space g)))"
proof -
  let ?body = "trimRight r"
  have r: "r = ?body @ rev (takeWhile is_space (rev r))"
    by (metis trimRight_def rev_append rev_rev_ident takeWhile_dropWhile_id)
  have sp: "list_all is_space (rev (takeWhile is_space (rev r)))"
    by (auto simp: list_all_iff dest: set_takeWhileD)
  from assms have b: "?body \<noteq> []" "last ?body = 93" "g = butlast ?body"
    and c: "g = [] \<or> (is_space (hd g) \<and> list_all any_char (dropWhile is_space g))"
    by (auto simp: sect_rest_def Let_def split: if_splits)
  from b have "?body = g @ [93]" by (metis append_butlast_last_id)
  then have "r = g @ 93 # rev (takeWhile is_space (rev r))" using r by (metis append.assoc append_Cons append_Nil)
  then show ?thesis using sp c by blast
qed

lemma run_section_rest:
  "run (Maybe [Group 2 [Many1 is_space, Many any_char]] # sectTail) (b, r, c) =
     (case sect_rest r of
        None \<Rightarrow> None
      | Some g \<Rightarrow> Some (rev r @ b, [], if g = [] then c else c(2 \<mapsto> g)))"
proof (cases "run ([Group 2 [Many1 is_space, Many any_char]] @ sectTail) (b, r, c)")
  case (Some st)
  from group_tail_sound[OF Some] obtain g sp where
    d: "r = g @ 93 # sp" "g \<noteq> []" "is_space (hd g)"
       "list_all any_char (dropWhile is_space g)" "list_all is_space sp"
       "st = (rev r @ b, [], c(2 \<mapsto> g))" by blast
  then have "sect_rest r = Some g" by (simp add: sect_rest_decomp)
  then show ?thesis using Some d by (simp only: run.simps(8)) simp
next
  case None
  show ?thesis
  proof (cases "sect_rest r")
    case n: None
    then have "run sectTail (b, r, c) = None"
      using sect_rest_decomp[of _ "[]"]
      by (auto simp: run_tail split: list.splits)
    then show ?thesis using None n by (simp only: run.simps(8)) simp
  next
    case (Some g)
    from sect_rest_SomeD[OF Some] obtain sp where
      d: "r = g @ 93 # sp" "list_all is_space sp"
         "g = [] \<or> (is_space (hd g) \<and> list_all any_char (dropWhile is_space g))" by blast
    have "g = []"
    proof (rule ccontr)
      assume "g \<noteq> []"
      then have "run ([Group 2 [Many1 is_space, Many any_char]] @ sectTail) (b, g @ 93 # sp, c) \<noteq> None"
        using d by (intro group_tail_complete) auto
      then show False using None d by simp
    qed
    then have "run sectTail (b, r, c) = Some (rev r @ b, [], c)"
      using d by (simp add: run_tail)
    then show ?thesis using None Some \<open>g = []\<close> by (simp only: run.simps(8)) simp
  qed
qed

lemma exec_section:
  "exec sectionPatternA [] s =
     (case sect s of
        None \<Rightarrow> None
      | Some (w, g) \<Rightarrow>
          Some (s, [], if g = [] then (\<lambda>n. None)(1 \<mapsto> w) else (\<lambda>n. None)(1 \<mapsto> w, 2 \<mapsto> g)))"
proof -
  let ?c0 = "(\<lambda>n. None) :: captures"
  let ?ws = "takeWhile is_space s" and ?t = "dropWhile is_space s"
  let ?REST = "Maybe [Group 2 [Many1 is_space, Many any_char]] # sectTail"
  let ?K0 = "lita [91] @ Group 1 [Many1 is_word] # ?REST"
  have rej0: "run ?K0 (b', x # r', c) = None" if "is_space x" for b' x r' c
    using that by (auto simp add: lita_def ci_nonword slash_eval)
  have head: "run sectionPatternA ([], s, ?c0) = run (Many is_space # ?K0) ([], s, ?c0)"
    by (simp add: sectionPatternA_def)
  have star: "run (Many is_space # ?K0) ([], s, ?c0) = run ?K0 (rev ?ws @ [], ?t, ?c0)"
    by (rule many_forced0) (rule rej0)
  show ?thesis
  proof (cases ?t)
    case Nil
    have "run ?K0 (rev ?ws @ [], [], ?c0) = None" by (simp add: lita_def)
    then show ?thesis unfolding exec_def head star Nil sect_def by simp
  next
    case (Cons x t1)
    show ?thesis
    proof (cases "x = 91 \<and> word_before t1")
      case False
      then have "run ?K0 (rev ?ws @ [], ?t, ?c0) = None"
        using Cons by (cases t1) (auto simp add: lita_def ci_nonword slash_eval simp del: run.simps(3,8))
      then show ?thesis using False unfolding exec_def head star sect_def Cons by auto
    next
      case True
      then obtain y ys where t1: "t1 = y # ys" and y: "is_word y" by (cases t1) auto
      let ?b1 = "91 # rev ?ws"
      let ?i = "length ?b1"
      let ?K1 = "GroupEnd 1 ?i # ?REST"
      let ?w = "takeWhile is_word t1" and ?r2 = "dropWhile is_word t1"
      have rej1: "run ?K1 (b', z # r', c) = None" if "is_word z" for b' z r' c
        using that space_not_word[of z]
        by (auto simp add: lita_def ci_nonword slash_eval simp del: run.simps(3))
      have a: "run ?K0 (rev ?ws @ [], ?t, ?c0) = run (Many is_word # ?K1) (y # ?b1, ys, ?c0)"
        using True Cons t1 y by (simp add: lita_def ci_nonword slash_eval del: run.simps(3,8,13))
      have b: "run (Many is_word # ?K1) (y # ?b1, ys, ?c0) =
               run ?K1 (rev (takeWhile is_word ys) @ y # ?b1, dropWhile is_word ys, ?c0)"
        by (rule many_forced0) (rule rej1)
      have c: "run ?K1 (rev (takeWhile is_word ys) @ y # ?b1, dropWhile is_word ys, ?c0) =
               run ?REST (rev ?w @ ?b1, ?r2, ?c0(1 \<mapsto> ?w))"
        using t1 y by (simp del: run.simps(8))
      have s: "rev ?r2 @ rev ?w @ ?b1 = rev s"
      proof -
        have "s = ?ws @ 91 # ?w @ ?r2"
          using Cons True by (metis takeWhile_dropWhile_id)
        then have "rev s = rev (?ws @ 91 # ?w @ ?r2)" by simp
        also have "\<dots> = rev ?r2 @ rev ?w @ ?b1" by (simp del: takeWhile_dropWhile_id)
        finally show ?thesis by simp
      qed
      have "run sectionPatternA ([], s, ?c0) =
        (case sect_rest ?r2 of None \<Rightarrow> None
         | Some g \<Rightarrow> Some (rev s, [], if g = [] then ?c0(1 \<mapsto> ?w) else ?c0(1 \<mapsto> ?w, 2 \<mapsto> g)))"
        unfolding head star a b c run_section_rest s[symmetric] by (simp split: option.splits)
      then show ?thesis using True unfolding exec_def sect_def Cons
        by (simp split: option.splits)
    qed
  qed
qed

lemma sectionPatternA_bol: "sectionPatternA = Bol # tl sectionPatternA"
  by (simp add: sectionPatternA_def)

lemma section_closed:
  "replace_first sectionPatternA (\<lambda>m c. [91] @ upcase (group c 1) @ group c 2 @ [93]) [] s = sectionOne s"
proof -
  have "replace_first sectionPatternA f [] s =
      (case exec sectionPatternA [] s of Some (m, r', c) \<Rightarrow> f m c @ r' | None \<Rightarrow> s)" for f
    by (subst (1 2) sectionPatternA_bol) (rule replace_first_bol)
  then show ?thesis
    by (auto simp add: sectionOne_def exec_section group_def split: option.splits)
qed


section \<open>Trimming, comments and the document loop\<close>

lemma trimRight_fixed_iff: "trimRight s = s \<longleftrightarrow> s = [] \<or> \<not> is_space (last s)"
proof (cases s rule: rev_cases)
  case Nil
  then show ?thesis by (simp add: trimRight_def)
next
  case (snoc ys y)
  show ?thesis
  proof (cases "is_space y")
    case True
    have "length (trimRight s) \<le> length ys"
      using snoc True by (simp add: trimRight_def) (metis length_dropWhile_le length_rev)
    then have "trimRight s \<noteq> s" using snoc by auto
    then show ?thesis using snoc True by simp
  next
    case False
    then show ?thesis using snoc by (simp add: trimRight_def)
  qed
qed

lemma trimRight_last: "trimRight s \<noteq> [] \<Longrightarrow> \<not> is_space (last (trimRight s))"
  unfolding trimRight_def using hd_dropWhile[of is_space "rev s"] by (simp add: last_rev)

lemma trimRight_idem [simp]: "trimRight (trimRight s) = trimRight s"
  using trimRight_last[of s] by (auto simp: trimRight_fixed_iff)

lemma trimRight_split: "s = trimRight s @ rev (takeWhile is_space (rev s))"
  by (metis trimRight_def rev_append rev_rev_ident takeWhile_dropWhile_id)

lemma trimRight_append_spaces: "list_all is_space sp \<Longrightarrow> trimRight (s @ sp) = trimRight s"
  using dropWhile_append2[of "rev sp" is_space "rev s"] by (auto simp: trimRight_def list_all_iff)

lemma dropWhile_trimRight: "dropWhile is_space (trimRight s) = trimRight (dropWhile is_space s)"
proof (cases "trimRight s = []")
  case True
  then have "list_all is_space s" by (simp add: trimRight_def list_all_iff)
  then have a: "dropWhile is_space s = []" by (simp add: list_all_iff)
  show ?thesis unfolding True a by (simp add: trimRight_def)
next
  case False
  let ?t = "trimRight s" and ?sp = "rev (takeWhile is_space (rev s))"
  have sp: "list_all is_space ?sp" by (auto simp: list_all_iff dest: set_takeWhileD)
  have nl: "\<not> is_space (last ?t)" using False by (rule trimRight_last)
  then have ex: "\<exists>x\<in>set ?t. \<not> is_space x" using False last_in_set by blast
  have "dropWhile is_space s = dropWhile is_space (?t @ ?sp)" using trimRight_split[of s] by simp
  also have "\<dots> = dropWhile is_space ?t @ ?sp"
  proof -
    from ex obtain x where "x \<in> set ?t" "\<not> is_space x" by blast
    then show ?thesis by (rule dropWhile_append1)
  qed
  finally have "trimRight (dropWhile is_space s) = trimRight (dropWhile is_space ?t)"
    using sp by (simp add: trimRight_append_spaces)
  moreover have "trimRight (dropWhile is_space ?t) = dropWhile is_space ?t"
  proof -
    have "dropWhile is_space ?t \<noteq> []" using ex by (simp add: dropWhile_eq_Nil_conv)
    moreover then have "last (dropWhile is_space ?t) = last ?t"
      by (metis last_appendR takeWhile_dropWhile_id)
    ultimately show ?thesis using nl by (simp add: trimRight_fixed_iff)
  qed
  ultimately show ?thesis by simp
qed

lemma trim_trimRight [simp]: "trim (trimRight s) = trim s"
  by (simp add: trim_def dropWhile_trimRight)

lemma isCommentLine_trimRight [simp]: "isCommentLine (trimRight s) = isCommentLine s"
  by (simp add: isCommentLine_def)

lemmas char_eval = is_word_def is_space_def Let_def str_def
  canonicalize_def ci_def word_before_def boundary_def blank_def any_char_def nonspace_def trigger_tail_def
  exampleUpperCase_def latin1_upper_def

lemmas string_eval = trim_def trimRight_def startsWith_def isCommentLine_def

lemmas format_eval = formatLine_def formatCommandCalls_def commandKeywords_def commandPattern_def
  formatSectionHeaders_def sectionPattern_def formatTriggers_def triggerPattern_def
  scopedPattern_def assignmentPattern_def controlPattern_def exampleConstants_def
  exec_def lit_def group_def replace_first.simps replace_all.simps string_eval char_eval

declare editsLoop.simps [simp del]

lemma editsLoop_closed:
  "editsLoop U K doc i acc =
     (if None \<in> set (drop i doc) then Inl TypeError
      else Inr (acc @ map (\<lambda>j. lineEdit U K j (the (doc ! j))) [i..<length doc]))"
proof (induction U K doc i acc rule: editsLoop.induct)
  case (1 U K doc i acc)
  show ?case
  proof (cases "i < length doc")
    case False
    then show ?thesis by (simp add: editsLoop.simps[of U K doc i acc])
  next
    case True
    then have d: "drop i doc = doc ! i # drop (Suc i) doc" by (simp add: Cons_nth_drop_Suc)
    have u: "[i..<length doc] = i # [Suc i..<length doc]" using True by (simp add: upt_conv_Cons)
    show ?thesis
    proof (cases "doc ! i")
      case None
      then show ?thesis using True d by (simp add: editsLoop.simps[of U K doc i acc])
    next
      case (Some t)
      then show ?thesis using True d u "1.IH"[OF True Some refl refl refl refl refl refl]
        by (simp add: editsLoop.simps[of U K doc i acc] lineEdit_def Let_def)
    qed
  qed
qed

lemma provideDocumentFormattingEdits_closed:
  "provideDocumentFormattingEdits U K doc =
     (if None \<in> set doc then Inl TypeError
      else Inr (map (\<lambda>j. lineEdit U K j (the (doc ! j))) [0..<length doc]))"
  by (simp add: provideDocumentFormattingEdits_def editsLoop_closed)


section \<open>The rules as painting rules\<close>

lemma cle_refl [simp]: "cle x x"
  by (simp add: cle_def list_all2_refl)

lemma cle_length: "cle x y \<Longrightarrow> length y = length x"
  by (simp add: cle_def list_all2_lengthD)

lemma cle_Nil [simp]: "cle [] y = (y = [])" "cle x [] = (x = [])"
  by (simp_all add: cle_def)

lemma cle_Cons [simp]: "cle (a # x) (b # y) = ((b = a \<or> b = ascii_upper a) \<and> cle x y)"
  by (simp add: cle_def)

lemma cle_Cons1: "cle (a # x) y = (\<exists>b y'. y = b # y' \<and> (b = a \<or> b = ascii_upper a) \<and> cle x y')"
  by (cases y) auto

lemma cle_trans:
  assumes "cle x y" "cle y z"
  shows "cle x z"
  using assms unfolding cle_def
proof (induction arbitrary: z rule: list_all2_induct)
  case Nil
  then show ?case by simp
next
  case (Cons a x b y)
  then show ?case by (cases z) auto
qed

lemma cle_append: "cle x y \<Longrightarrow> cle x' y' \<Longrightarrow> cle (x @ x') (y @ y')"
  by (simp add: cle_def list_all2_appendI)

lemma cle_append1: "cle (x @ x') y = (\<exists>y1 y2. y = y1 @ y2 \<and> cle x y1 \<and> cle x' y2)"
proof
  assume "cle (x @ x') y"
  then show "\<exists>y1 y2. y = y1 @ y2 \<and> cle x y1 \<and> cle x' y2"
    unfolding cle_def list_all2_append1 by blast
next
  assume "\<exists>y1 y2. y = y1 @ y2 \<and> cle x y1 \<and> cle x' y2"
  then show "cle (x @ x') y" by (auto intro: cle_append)
qed

lemma cle_upper: "cle x y \<Longrightarrow> upcase y = upcase x"
  unfolding cle_def upcase_def by (induction rule: list_all2_induct) auto

lemma cle_upcase [simp]: "cle x (upcase x)"
  by (induction x) (simp_all add: upcase_def)

lemma cle_drop: "cle x y \<Longrightarrow> cle (drop n x) (drop n y)"
  unfolding cle_def by (rule list_all2_dropI)

lemma cle_take: "cle x y \<Longrightarrow> cle (take n x) (take n y)"
  unfolding cle_def by (rule list_all2_takeI)

lemma cle_upper_fixed: "cle x y \<Longrightarrow> upcase x = x \<Longrightarrow> y = x"
  unfolding cle_def upcase_def by (induction rule: list_all2_induct) auto

lemma cle_paint: "length m = length s \<Longrightarrow> cle s (paint m s)"
proof (induction s arbitrary: m)
  case Nil
  then show ?case by simp
next
  case (Cons a s)
  then show ?case by (cases m) simp_all
qed

lemma cle_class: "ucls p \<Longrightarrow> cle (a # x) (b # y) \<Longrightarrow> p b = p a"
  by (auto simp: ucls_def)

lemma ucls_simps [simp]: "ucls is_space" "ucls is_word" "ucls blank" "ucls nonspace" "ucls trigger_tail" "ucls any_char"
proof -
  show "ucls is_space" "ucls is_word" by (simp_all add: ucls_def)
  show "ucls nonspace" by (simp add: ucls_def nonspace_def)
  have b: "blank x \<Longrightarrow> ascii_upper x = x" for x by (simp add: blank_space ascii_upper_space)
  have c: "ascii_upper x = a \<Longrightarrow> \<not> is_word a \<Longrightarrow> x = a" for x a by (rule ascii_upper_eq_nonword)
  show "ucls blank" unfolding ucls_def
  proof
    fix x show "blank (ascii_upper x) = blank x"
    proof
      assume "blank (ascii_upper x)"
      then have "is_space (ascii_upper x)" by (rule blank_space)
      then have "\<not> is_word (ascii_upper x)" by (rule space_not_word)
      then have "ascii_upper x = x" by (simp add: ascii_upper_nonword)
      then show "blank x" using \<open>blank (ascii_upper x)\<close> by simp
    next
      assume "blank x" then show "blank (ascii_upper x)" by (simp add: b)
    qed
  qed
  have d: "ascii_upper x = a \<longleftrightarrow> x = a" if "\<not> is_word a" for x a
    using that c ascii_upper_nonword by blast
  show "ucls trigger_tail" by (simp add: ucls_def trigger_tail_iff d slash_eval)
  have "\<not> is_word 10" "\<not> is_word 13" "\<not> is_word 8232" "\<not> is_word 8233" by (simp_all add: is_word_def)
  then show "ucls any_char" by (simp add: ucls_def any_char_def d)
qed

lemma takeWhile_upper: "ucls p \<Longrightarrow> takeWhile p (upcase z) = upcase (takeWhile p z)"
  by (induction z) (simp_all add: upcase_def ucls_def)

lemma dropWhile_upper: "ucls p \<Longrightarrow> dropWhile p (upcase z) = upcase (dropWhile p z)"
  by (induction z) (simp_all add: upcase_def ucls_def)

lemma upcase_idem [simp]: "upcase (upcase z) = upcase z"
  by (simp add: upcase_def)

lemma upcase_append [simp]: "upcase (x @ y) = upcase x @ upcase y"
  by (simp add: upcase_def)

lemma upcase_simps [simp]: "upcase [] = []" "upcase (a # x) = ascii_upper a # upcase x"
  "length (upcase x) = length x" "take n (upcase x) = upcase (take n x)"
  "drop n (upcase x) = upcase (drop n x)"
  by (simp_all add: upcase_def take_map drop_map)

lemma upper_eq_length:
  assumes "upcase z = upcase z'"
  shows "length z = length z'"
  using arg_cong[OF assms, of length] by simp

lemma takeWhile_upper_eq:
  assumes "ucls p" "upcase z = upcase z'"
  shows "length (takeWhile p z) = length (takeWhile p z')"
    "upcase (takeWhile p z) = upcase (takeWhile p z')"
    "upcase (dropWhile p z) = upcase (dropWhile p z')"
proof -
  have "upcase (takeWhile p z) = takeWhile p (upcase z)" using assms(1) by (simp add: takeWhile_upper)
  also have "\<dots> = upcase (takeWhile p z')" using assms by (simp add: takeWhile_upper)
  finally show a: "upcase (takeWhile p z) = upcase (takeWhile p z')" .
  from arg_cong[OF a, of length] show "length (takeWhile p z) = length (takeWhile p z')" by simp
  have "upcase (dropWhile p z) = dropWhile p (upcase z)" using assms(1) by (simp add: dropWhile_upper)
  also have "\<dots> = upcase (dropWhile p z')" using assms by (simp add: dropWhile_upper)
  finally show "upcase (dropWhile p z) = upcase (dropWhile p z')" .
qed

lemma paint_idem: "paint m (paint m z) = paint m z"
proof (induction z arbitrary: m)
  case Nil
  then show ?case by simp
next
  case (Cons a z)
  then show ?case by (cases m) simp_all
qed

lemma paint_upper: "upcase (paint m z) = upcase (take (length m) z)"
proof (induction z arbitrary: m)
  case Nil
  then show ?case by simp
next
  case (Cons a z)
  then show ?case by (cases m) simp_all
qed

lemma paint_fixed_cle:
  "paint m z = z \<Longrightarrow> cle z z' \<Longrightarrow> length m = length z \<Longrightarrow> paint m z' = z'"
proof (induction z arbitrary: m z')
  case Nil
  then show ?case by simp
next
  case (Cons a z)
  then obtain f m' where m: "m = f # m'" by (cases m) auto
  from Cons.prems(2) obtain b y where z': "z' = b # y" "b = a \<or> b = ascii_upper a" "cle z y"
    by (auto simp: cle_Cons1)
  from Cons.prems(1) m have a: "(if f then ascii_upper a else a) = a" "paint m' z = z" by simp_all
  have "paint m' y = y" using Cons.IH[OF a(2) z'(3)] Cons.prems(3) m by simp
  moreover have "(if f then ascii_upper b else b) = b" using a(1) z'(2) by (auto split: if_splits)
  ultimately show ?case using m z' by simp
qed

lemma paint_False [simp]: "paint (replicate n False) z = take n z"
proof (induction z arbitrary: n)
  case Nil
  then show ?case by simp
next
  case (Cons a z)
  then show ?case by (cases n) simp_all
qed

lemma chain_append: "chain (rs @ rs') z = chain rs' (chain rs z)"
  by (induction rs arbitrary: z) simp_all

lemma stableD1: "stable R \<Longrightarrow> R (R z) = R z"
  unfolding stable_def by blast

lemma stableD2: "stable R \<Longrightarrow> R z = z \<Longrightarrow> cle z z' \<Longrightarrow> R z' = z'"
  unfolding stable_def by blast

lemma stableD3: "stable R \<Longrightarrow> blank x \<Longrightarrow> R (x # z) = x # z \<Longrightarrow> R z = z"
  unfolding stable_def by blast

lemma goodD: "good R \<Longrightarrow> stable R" "good R \<Longrightarrow> shp z (R z)"
  unfolding good_def by blast+

lemma stable_shp:
  assumes "stable R" "R z = z" "shp z z'"
  shows "R z' = z'"
proof -
  from assms(3) obtain n where n: "n \<le> length (takeWhile blank z)" "cle (drop n z) z'"
    by (auto simp: shpw_def)
  have "R (drop n z) = drop n z" using n(1) assms(2)
  proof (induction n arbitrary: z)
    case 0
    then show ?case by simp
  next
    case (Suc n)
    then obtain x xs where z: "z = x # xs" "blank x" by (cases z) (auto split: if_splits)
    then have "R xs = xs" using stableD3[OF assms(1), of x xs] Suc.prems(2) by simp
    moreover have "n \<le> length (takeWhile blank xs)" using Suc.prems(1) z by simp
    ultimately show ?case using Suc.IH[of xs] z by simp
  qed
  then show ?thesis using n(2) by (rule stableD2[OF assms(1)])
qed

lemma chain_keeps_fixed:
  assumes "stable R" "\<forall>Q\<in>set rs. \<forall>z. shp z (Q z)" "R z = z"
  shows "R (chain rs z) = chain rs z"
  using assms(2,3)
proof (induction rs arbitrary: z)
  case Nil
  then show ?case by simp
next
  case (Cons Q rs)
  have "R (Q z) = Q z" using stable_shp[OF assms(1) Cons.prems(2)] Cons.prems(1) by simp
  then show ?case using Cons by simp
qed

lemma chain_fixed:
  assumes "\<forall>R\<in>set rs. good R"
  shows "\<forall>R\<in>set rs. R (chain rs z) = chain rs z"
  using assms
proof (induction rs arbitrary: z)
  case Nil
  then show ?case by simp
next
  case (Cons Q rs)
  have g: "good Q" using Cons.prems by simp
  have "Q (Q z) = Q z" using stableD1[OF goodD(1)[OF g]] .
  moreover have "\<forall>P\<in>set rs. \<forall>z. shp z (P z)" using Cons.prems goodD(2) by simp
  ultimately have "Q (chain rs (Q z)) = chain rs (Q z)"
    using chain_keeps_fixed[OF goodD(1)[OF g], of rs "Q z"] by blast
  moreover have "\<forall>R\<in>set rs. R (chain rs (Q z)) = chain rs (Q z)"
    using Cons.IH[of "Q z"] Cons.prems by simp
  ultimately show ?case by simp
qed

lemma chain_all_fixed: "\<forall>R\<in>set rs. R y = y \<Longrightarrow> chain rs y = y"
  by (induction rs) simp_all

lemma shpw_refl [simp]: "shpw p z z"
  by (auto simp: shpw_def intro: exI[of _ 0])

lemma cle_shpw: "cle z z' \<Longrightarrow> shpw p z z'"
  by (auto simp: shpw_def intro: exI[of _ 0])

lemma cle_takeWhile_length:
  "ucls p \<Longrightarrow> cle x y \<Longrightarrow> length (takeWhile p y) = length (takeWhile p x)"
  using takeWhile_upper_eq(1)[of p y x] cle_upper by simp

lemma takeWhile_drop_le:
  "n \<le> length (takeWhile p x) \<Longrightarrow> takeWhile p (drop n x) = drop n (takeWhile p x)"
proof (induction x arbitrary: n)
  case Nil
  then show ?case by simp
next
  case (Cons a x)
  then show ?case by (cases n) (auto split: if_splits)
qed

lemma shpw_trans:
  assumes "ucls p" "shpw p x y" "shpw p y z"
  shows "shpw p x z"
proof -
  from assms obtain n m where n: "n \<le> length (takeWhile p x)" "cle (drop n x) y"
    and m: "m \<le> length (takeWhile p y)" "cle (drop m y) z"
    by (auto simp: shpw_def)
  have l: "length (takeWhile p y) = length (takeWhile p (drop n x))"
    using cle_takeWhile_length[OF assms(1) n(2)] by simp
  have "n + m \<le> length (takeWhile p x)" using m(1) l takeWhile_drop_le[OF n(1)] n(1) by simp
  moreover have "cle (drop (n + m) x) z"
    using cle_trans[OF cle_drop[OF n(2), of m] m(2)] by (simp add: add.commute)
  ultimately show ?thesis by (auto simp: shpw_def)
qed

lemma shp_wide: "shp z z' \<Longrightarrow> shpw is_space z z'"
proof -
  have "length (takeWhile blank z) \<le> length (takeWhile is_space z)"
    by (induction z) (auto simp: blank_space)
  then show "shp z z' \<Longrightarrow> shpw is_space z z'" unfolding shpw_def by (meson le_trans)
qed

lemma chain_shpw: "ucls p \<Longrightarrow> \<forall>Q\<in>set rs. \<forall>z. shpw p z (Q z) \<Longrightarrow> shpw p z (chain rs z)"
proof (induction rs arbitrary: z)
  case Nil
  then show ?case by simp
next
  case (Cons Q rs)
  then show ?case using shpw_trans[of p z "Q z" "chain rs (Q z)"] by simp
qed

lemma maskedD:
  "masked M \<Longrightarrow> length (M z) = length z"
  "masked M \<Longrightarrow> upcase z = upcase z' \<Longrightarrow> M z = M z'"
  "masked M \<Longrightarrow> blank x \<Longrightarrow> M (x # z) = False # M z"
  unfolding masked_def by blast+

lemma masked_good:
  assumes "masked M"
  shows "good (\<lambda>z. paint (M z) z)"
proof -
  note l = maskedD(1)[OF assms]
  have up: "upcase (paint (M z) z) = upcase z" for z
    by (simp add: paint_upper l)
  have 1: "paint (M (paint (M z) z)) (paint (M z) z) = paint (M z) z" for z
    using maskedD(2)[OF assms up[of z]] by (simp add: paint_idem)
  have 2: "paint (M z') z' = z'" if "paint (M z) z = z" "cle z z'" for z z'
  proof -
    have "M z' = M z" using maskedD(2)[OF assms cle_upper[OF that(2)]] .
    then show ?thesis using paint_fixed_cle[OF that(1) that(2)] l by simp
  qed
  have 3: "paint (M z) z = z" if "blank x" "paint (M (x # z)) (x # z) = x # z" for x z
    using that maskedD(3)[OF assms that(1), of z] by simp
  have 4: "shp z (paint (M z) z)" for z
    by (rule cle_shpw) (simp add: cle_paint l)
  have "stable (\<lambda>z. paint (M z) z)"
    unfolding stable_def
  proof (intro conjI allI impI)
    fix z show "paint (M (paint (M z) z)) (paint (M z) z) = paint (M z) z" by (rule 1)
  next
    fix z z' assume "paint (M z) z = z \<and> cle z z'"
    then show "paint (M z') z' = z'" using 2 by blast
  next
    fix x z assume "blank x \<and> paint (M (x # z)) (x # z) = x # z"
    then show "paint (M z) z = z" using 3 by blast
  qed
  then show ?thesis unfolding good_def using 4 by blast
qed

lemma scannerD:
  "scanner ok len \<Longrightarrow> word_before b = word_before b' \<Longrightarrow> upcase r = upcase r' \<Longrightarrow>
     ok b r = ok b' r'"
  "scanner ok len \<Longrightarrow> upcase r = upcase r' \<Longrightarrow> len r = len r'"
  "scanner ok len \<Longrightarrow> is_space x \<Longrightarrow> \<not> ok b (x # r)"
  unfolding scanner_def by blast+

lemma word_before_rev_append:
  "m \<noteq> [] \<Longrightarrow> word_before (rev m @ b) = is_word (last m)"
  by (cases m rule: rev_cases) simp_all

lemma upper_eq_nth_word:
  assumes "upcase r = upcase r'" "i < length r"
  shows "is_word (r ! i) = is_word (r' ! i)"
proof -
  have "map ascii_upper r ! i = map ascii_upper r' ! i"
    using assms(1) by (simp add: upcase_def)
  then have "ascii_upper (r ! i) = ascii_upper (r' ! i)"
    using assms(2) upper_eq_length[OF assms(1)] by simp
  then have "is_word (ascii_upper (r ! i)) = is_word (ascii_upper (r' ! i))" by simp
  then show ?thesis by simp
qed

lemma last_take: "0 < n \<Longrightarrow> n \<le> length r \<Longrightarrow> last (take n r) = r ! (n - 1)"
proof -
  assume n: "0 < n" "n \<le> length r"
  then have "take n r \<noteq> []" by auto
  then have "last (take n r) = take n r ! (length (take n r) - 1)" by (rule last_conv_nth)
  also have "\<dots> = r ! (n - 1)" using n by simp
  finally show ?thesis .
qed

lemma paint_three:
  "paint (replicate (length a) False @ replicate (length m) True @ replicate (length r) False)
     (a @ m @ r) = a @ upcase m @ r"
  by (simp add: paint_append paint_True)

lemma mask_step_hit:
  assumes "ok b r" "0 < len r" "len r \<le> length r"
  shows "mask ok len b r =
     replicate (len r) True @ mask ok len (rev (take (len r) r) @ b) (drop (len r) r)"
proof (cases r)
  case Nil
  then show ?thesis using assms by simp
next
  case (Cons x xs)
  have c: "ok b (x # xs) \<and> 0 < len (x # xs) \<and> len (x # xs) \<le> length (x # xs)"
    using assms unfolding Cons by blast
  show ?thesis unfolding Cons by (subst mask.simps(2)) (simp only: c simp_thms if_True)
qed

lemma mask_step_miss:
  "\<not> (ok b (x # xs) \<and> 0 < len (x # xs) \<and> len (x # xs) \<le> length (x # xs)) \<Longrightarrow>
   mask ok len b (x # xs) = False # mask ok len (x # b) xs"
  by (subst mask.simps(2)) (simp only: if_False)

lemma mask_cong:
  assumes "scanner ok len"
  shows "word_before b = word_before b' \<Longrightarrow> upcase r = upcase r' \<Longrightarrow>
         mask ok len b r = mask ok len b' r'"
proof (induction "length r" arbitrary: b b' r r' rule: less_induct)
  case less
  show ?case
  proof (cases r)
    case Nil
    then show ?thesis using less.prems by (simp add: upcase_def)
  next
    case (Cons x xs)
    then obtain x' xs' where r': "r' = x' # xs'" and x: "ascii_upper x = ascii_upper x'"
      and xs: "upcase xs = upcase xs'"
      using less.prems(2) by (cases r') auto
    have ok: "ok b r = ok b' r'" using scannerD(1)[OF assms less.prems] .
    have len: "len r = len r'" using scannerD(2)[OF assms less.prems(2)] .
    have lr: "length r = length r'" using upper_eq_length[OF less.prems(2)] .
    show ?thesis
    proof (cases "ok b r \<and> 0 < len r \<and> len r \<le> length r")
      case True
      let ?n = "len r"
      have tn: "take ?n r \<noteq> []" using True Cons by auto
      have tn': "take ?n r' \<noteq> []" using True r' by auto
      have "last (take ?n r) = r ! (?n - 1)" "last (take ?n r') = r' ! (?n - 1)"
        using True lr by (simp_all add: last_take)
      moreover have "?n - 1 < length r" using True by arith
      ultimately have "is_word (last (take ?n r)) = is_word (last (take ?n r'))"
        using upper_eq_nth_word[OF less.prems(2), of "?n - 1"] by simp
      then have wb: "word_before (rev (take ?n r) @ b) = word_before (rev (take ?n r') @ b')"
        using tn tn' by (simp add: word_before_rev_append)
      have up: "upcase (drop ?n r) = upcase (drop ?n r')"
        using arg_cong[OF less.prems(2), of "drop ?n"] by simp
      have IH: "mask ok len (rev (take ?n r) @ b) (drop ?n r) = mask ok len (rev (take ?n r') @ b') (drop ?n r')"
        by (rule less.hyps[OF _ wb up]) (use True Cons in simp)
      have "mask ok len b r = replicate ?n True @ mask ok len (rev (take ?n r) @ b) (drop ?n r)"
        using True by (intro mask_step_hit) simp_all
      moreover have "mask ok len b' r' = replicate ?n True @ mask ok len (rev (take ?n r') @ b') (drop ?n r')"
        using True ok len lr mask_step_hit[of ok b' r' len] by simp
      ultimately show ?thesis using IH by simp
    next
      case False
      have "is_word (ascii_upper x) = is_word (ascii_upper x')" using x by simp
      then have wx: "word_before (x # b) = word_before (x' # b')" by simp
      have IH: "mask ok len (x # b) xs = mask ok len (x' # b') xs'"
        by (rule less.hyps[OF _ wx xs]) (use Cons in simp)
      have "mask ok len b (x # xs) = False # mask ok len (x # b) xs"
        by (rule mask_step_miss) (use False Cons in simp)
      moreover have "mask ok len b' (x' # xs') = False # mask ok len (x' # b') xs'"
        by (rule mask_step_miss) (use False ok len lr Cons r' in simp)
      ultimately show ?thesis using IH Cons r' by simp
    qed
  qed
qed

lemma scanner_masked:
  assumes "scanner ok len"
  shows "masked (mask ok len [])"
proof -
  have "mask ok len [] (x # z) = False # mask ok len [] z" if "blank x" for x z
  proof -
    have sp: "is_space x" using that by (rule blank_space)
    have "mask ok len [x] z = mask ok len [] z"
      by (rule mask_cong[OF assms]) (simp_all add: sp space_not_word)
    then show ?thesis using scannerD(3)[OF assms sp, of "[]" z] mask_step_miss[of ok "[]" x z len] by simp
  qed
  then show ?thesis unfolding masked_def
  proof (intro conjI allI impI)
    fix z show "length (mask ok len [] z) = length z" by simp
  next
    fix z z' :: jstring assume "upcase z = upcase z'"
    then show "mask ok len [] z = mask ok len [] z'" by (intro mask_cong[OF assms]) simp_all
  qed blast
qed

lemma head_masked:
  assumes sp: "ucls sp" and bl: "\<And>x. blank x \<Longrightarrow> sp x"
    and inv: "\<And>t t'. upcase t = upcase t' \<Longrightarrow> cond t = cond t' \<and> n t = n t'"
    and le: "\<And>t. cond t \<Longrightarrow> off + n t \<le> length t"
  shows "masked (head_mask sp cond off n)"
proof -
  have 1: "length (head_mask sp cond off n z) = length z" for z
  proof -
    have "length z = length (takeWhile sp z) + length (dropWhile sp z)"
      by (metis length_append takeWhile_dropWhile_id)
    then show ?thesis using le[of "dropWhile sp z"] by (auto simp: head_mask_def Let_def)
  qed
  have 2: "head_mask sp cond off n z = head_mask sp cond off n z'"
    if "upcase z = upcase z'" for z z'
    using takeWhile_upper_eq[OF sp that] inv[OF takeWhile_upper_eq(3)[OF sp that]]
      upper_eq_length[OF that] upper_eq_length[OF takeWhile_upper_eq(3)[OF sp that]]
    by (simp add: head_mask_def Let_def)
  have 3: "head_mask sp cond off n (x # z) = False # head_mask sp cond off n z" if "blank x" for x z
    using bl[OF that] by (simp add: head_mask_def Let_def)
  show ?thesis unfolding masked_def
  proof (intro conjI allI impI)
    fix z show "length (head_mask sp cond off n z) = length z" by (rule 1)
  next
    fix z z' :: jstring assume "upcase z = upcase z'"
    then show "head_mask sp cond off n z = head_mask sp cond off n z'" by (rule 2)
  next
    fix x z assume "blank x"
    then show "head_mask sp cond off n (x # z) = False # head_mask sp cond off n z" by (rule 3)
  qed
qed

lemma paint_head_mask:
  assumes "cond (dropWhile sp z)" "off + n (dropWhile sp z) \<le> length (dropWhile sp z)"
  shows "paint (head_mask sp cond off n z) z =
     takeWhile sp z @ take off (dropWhile sp z) @
     upcase (take (n (dropWhile sp z)) (drop off (dropWhile sp z))) @
     drop (off + n (dropWhile sp z)) (dropWhile sp z)"
proof -
  let ?w = "takeWhile sp z" and ?t = "dropWhile sp z"
  let ?a = "take off ?t" and ?m = "take (n ?t) (drop off ?t)" and ?r = "drop (off + n ?t) ?t"
  have t: "?t = ?a @ ?m @ ?r"
    by (metis append_take_drop_id drop_drop add.commute)
  have z: "z = (?w @ ?a) @ ?m @ ?r" using t by (metis append.assoc takeWhile_dropWhile_id)
  have la: "length ?a = off" and lm: "length ?m = n ?t" and lr: "length ?r = length ?t - off - n ?t"
    using assms(2) by simp_all
  have "paint (head_mask sp cond off n z) z =
        paint (replicate (length (?w @ ?a)) False @ replicate (length ?m) True @ replicate (length ?r) False)
              ((?w @ ?a) @ ?m @ ?r)"
    using assms(1) la lm lr by (subst (2) z) (simp add: head_mask_def Let_def)
  also have "\<dots> = (?w @ ?a) @ upcase ?m @ ?r"
    by (rule paint_three)
  finally show ?thesis by simp
qed

lemma paint_head_mask_not:
  "\<not> cond (dropWhile sp z) \<Longrightarrow> paint (head_mask sp cond off n z) z = z"
  by (simp add: head_mask_def Let_def)

lemma strip_good:
  assumes inv: "\<And>t t'. upcase t = upcase t' \<Longrightarrow> cond t = cond t'"
  shows "good (strip_when cond)"
proof -
  have 1: "strip_when cond (strip_when cond z) = strip_when cond z" for z
    by (simp add: strip_when_def)
  have 2: "strip_when cond z' = z'" if "strip_when cond z = z" "cle z z'" for z z'
  proof (cases "cond (dropWhile blank z)")
    case True
    then have z: "dropWhile blank z = z" using that(1) by (simp add: strip_when_def)
    have "length (takeWhile blank z') = length (takeWhile blank z)"
      using cle_takeWhile_length[OF _ that(2)] by simp
    moreover have "takeWhile blank z = []"
      using z takeWhile_dropWhile_id[of blank z] by simp
    ultimately have "takeWhile blank z' = []" by simp
    then have "dropWhile blank z' = z'"
      using takeWhile_dropWhile_id[of blank z'] by simp
    then show ?thesis by (simp add: strip_when_def)
  next
    case False
    have "upcase (dropWhile blank z') = upcase (dropWhile blank z)"
      using takeWhile_upper_eq(3)[OF _ cle_upper[OF that(2)]] by simp
    then have "\<not> cond (dropWhile blank z')" using False inv by blast
    then show ?thesis by (simp add: strip_when_def)
  qed
  have 3: "strip_when cond z = z" if "blank x" "strip_when cond (x # z) = x # z" for x z
  proof (cases "cond (dropWhile blank z)")
    case True
    then have "dropWhile blank z = x # z" using that by (simp add: strip_when_def)
    then have "length (dropWhile blank z) = Suc (length z)" by simp
    then show ?thesis using length_dropWhile_le[of blank z] by simp
  next
    case False
    then show ?thesis by (simp add: strip_when_def)
  qed
  have 4: "shp z (strip_when cond z)" for z
  proof (cases "cond (dropWhile blank z)")
    case True
    have "dropWhile blank z = drop (length (takeWhile blank z)) z"
      by (simp add: dropWhile_eq_drop)
    then show ?thesis using True unfolding shpw_def strip_when_def
      by (intro exI[of _ "length (takeWhile blank z)"]) simp
  next
    case False
    then show ?thesis by (simp add: strip_when_def)
  qed
  have "stable (strip_when cond)"
    unfolding stable_def
  proof (intro conjI allI impI)
    fix z show "strip_when cond (strip_when cond z) = strip_when cond z" by (rule 1)
  next
    fix z z' assume "strip_when cond z = z \<and> cle z z'"
    then show "strip_when cond z' = z'" using 2 by blast
  next
    fix x z assume "blank x \<and> strip_when cond (x # z) = x # z"
    then show "strip_when cond z = z" using 3 by blast
  qed
  then show ?thesis unfolding good_def using 4 by blast
qed

lemma upcase_Nil_iff [simp]: "(upcase x = []) = (x = [])"
  by (simp add: upcase_def)

lemma takeWhile_dropWhile_Nil [simp]: "takeWhile p (dropWhile p z) = []"
  by (induction z) simp_all

lemma length_takeWhile_dropWhile: "length (takeWhile p z) + length (dropWhile p z) = length z"
  by (induction z) simp_all

lemma ci_prefix_upper [simp]: "ci_prefix p (upcase t) = ci_prefix p t"
  by (simp add: ci_prefix_def)

lemma word_before_upper [simp]: "word_before (upcase t) = word_before t"
  by (cases t) simp_all

lemma upper_eq_nonword: "\<not> is_word a \<Longrightarrow> (ascii_upper x = a) = (x = a)"
  using ascii_upper_eq_nonword ascii_upper_nonword by blast

lemma follows_dot_eq_upper [simp]: "follows_dot_eq (upcase t) = follows_dot_eq t"
  by (cases t) (simp_all add: follows_dot_eq_def upper_eq_nonword slash_eval)

lemma space_follows_upper [simp]: "space_follows (upcase t) = space_follows t"
  by (cases t) (simp_all add: space_follows_def)

lemma cmd_follows_upper [simp]: "cmd_follows (upcase t) = cmd_follows t"
  by (cases t) (simp_all add: cmd_follows_def upper_eq_nonword slash_eval)

lemma by_upper:
  assumes "\<And>t. f (upcase t) = f t" "upcase t = upcase t'"
  shows "f t = f t'"
proof -
  have "f t = f (upcase t)" by (simp add: assms(1))
  also have "\<dots> = f (upcase t')" by (simp add: assms(2))
  also have "\<dots> = f t'" by (simp add: assms(1))
  finally show ?thesis .
qed

lemma scopedCond_upper [simp]: "scopedCond p (upcase t) = scopedCond p t"
  by (simp add: scopedCond_def)

lemma controlCond_upper [simp]: "controlCond k (upcase t) = controlCond k t"
  by (simp add: controlCond_def)

lemma trig_len_upper [simp]: "trig_len (upcase r) = trig_len r"
  by (simp add: trig_len_def takeWhile_upper dropWhile_upper)

lemma trig_ok_upper [simp]: "trig_ok b (upcase r) = trig_ok b r"
  by (simp add: trig_ok_def takeWhile_upper dropWhile_upper)

lemma cmd_ok_upper [simp]: "cmd_ok f b (upcase r) = cmd_ok f b r"
  by (simp add: cmd_ok_def)

lemma ci_prefix_length: "ci_prefix p t \<Longrightarrow> length p \<le> length t"
  by (simp add: ci_prefix_def)

lemma scopedOne_paint:
  "scopedOne p z = paint (head_mask is_space (scopedCond p) 0 (\<lambda>t. length p) z) z"
proof (cases "scopedCond p (dropWhile is_space z)")
  case True
  then have "length p \<le> length (dropWhile is_space z)" by (simp add: scopedCond_def ci_prefix_length)
  then show ?thesis
    using True paint_head_mask[of "scopedCond p" is_space z 0 "\<lambda>t. length p"]
    by (simp add: scopedOne_def scopedCond_def[symmetric])
next
  case False
  then show ?thesis
    using paint_head_mask_not[of "scopedCond p" is_space z 0 "\<lambda>t. length p"]
    by (simp add: scopedOne_def scopedCond_def[symmetric])
qed

lemma good_scopedOne: "good (scopedOne p)"
proof -
  have "masked (head_mask is_space (scopedCond p) 0 (\<lambda>t. length p))"
  proof (rule head_masked)
    show "ucls is_space" by simp
    show "\<And>x. blank x \<Longrightarrow> is_space x" by (rule blank_space)
    show "scopedCond p t = scopedCond p t' \<and> length p = length p" if "upcase t = upcase t'" for t t'
      using by_upper[of "scopedCond p" t t'] that by simp
    show "\<And>t. scopedCond p t \<Longrightarrow> 0 + length p \<le> length t"
      by (simp add: scopedCond_def ci_prefix_length)
  qed
  from masked_good[OF this] show ?thesis by (simp add: scopedOne_paint[abs_def])
qed

lemma controlOne_paint:
  "controlOne k z = paint (head_mask is_space (controlCond k) 0 (\<lambda>t. length k) z) z"
proof (cases "controlCond k (dropWhile is_space z)")
  case True
  then have "length k \<le> length (dropWhile is_space z)" by (simp add: controlCond_def ci_prefix_length)
  then show ?thesis
    using True paint_head_mask[of "controlCond k" is_space z 0 "\<lambda>t. length k"]
    by (simp add: controlOne_def controlCond_def[symmetric])
next
  case False
  then show ?thesis
    using paint_head_mask_not[of "controlCond k" is_space z 0 "\<lambda>t. length k"]
    by (simp add: controlOne_def controlCond_def[symmetric])
qed

lemma good_controlOne: "good (controlOne k)"
proof -
  have "masked (head_mask is_space (controlCond k) 0 (\<lambda>t. length k))"
  proof (rule head_masked)
    show "ucls is_space" by simp
    show "\<And>x. blank x \<Longrightarrow> is_space x" by (rule blank_space)
    show "controlCond k t = controlCond k t' \<and> length k = length k" if "upcase t = upcase t'" for t t'
      using by_upper[of "controlCond k" t t'] that by simp
    show "\<And>t. controlCond k t \<Longrightarrow> 0 + length k \<le> length t"
      by (simp add: controlCond_def ci_prefix_length)
  qed
  from masked_good[OF this] show ?thesis by (simp add: controlOne_paint[abs_def])
qed

lemma ci_prefix_append_take:
  "ci_prefix (k @ s) t \<Longrightarrow> upcase (take (length k) t) = upcase k"
proof -
  assume "ci_prefix (k @ s) t"
  then have "upcase (take (length k + length s) t) = upcase k @ upcase s"
    by (simp add: ci_prefix_def)
  then have "take (length k) (upcase (take (length k + length s) t)) = upcase k"
    by simp
  then show ?thesis by (simp add: take_map upcase_def min_def)
qed

lemma ci_prefix_eq_nth:
  "ci_prefix (k @ [61]) t \<Longrightarrow> take 1 (drop (length k) t) = [61]"
proof -
  assume a: "ci_prefix (k @ [61]) t"
  then have "upcase (take (Suc (length k)) t) = upcase k @ [61]"
    by (simp add: ci_prefix_def ascii_upper_nonword slash_eval)
  then have "drop (length k) (upcase (take (Suc (length k)) t)) = [61]" by simp
  then have "upcase (take 1 (drop (length k) t)) = [61]"
    by (simp add: drop_take)
  then show ?thesis
    by (cases "take 1 (drop (length k) t)") (auto simp: upper_eq_nonword slash_eval)
qed

lemma assignOne_split: "assignOne k z = assignPaint k (assignStrip k z)"
proof (cases "ci_prefix (k @ [61]) (dropWhile blank z)")
  case True
  let ?t = "dropWhile blank z"
  have t: "dropWhile blank ?t = ?t" "takeWhile blank ?t = []" by simp_all
  have le: "length k \<le> length ?t" using ci_prefix_length[OF True] by simp
  have "assignPaint k ?t = upcase (take (length k) ?t) @ drop (length k) ?t"
    unfolding assignPaint_def
    using paint_head_mask[of "ci_prefix (k @ [61])" blank ?t 0 "\<lambda>t. length k"] True le
    by (simp only: t) simp
  also have "\<dots> = upcase k @ drop (length k) ?t"
    using ci_prefix_append_take[OF True] by simp
  also have "drop (length k) ?t = [61] @ drop (Suc (length k)) ?t"
  proof -
    have "take 1 (drop (length k) ?t) @ drop 1 (drop (length k) ?t) = drop (length k) ?t"
      by (rule append_take_drop_id)
    then have "[61] @ drop 1 (drop (length k) ?t) = drop (length k) ?t"
      by (simp only: ci_prefix_eq_nth[OF True])
    then show ?thesis by simp
  qed
  finally show ?thesis using True by (simp add: assignOne_def assignStrip_def strip_when_def)
next
  case False
  then show ?thesis
    using paint_head_mask_not[of "ci_prefix (k @ [61])" blank z 0 "\<lambda>t. length k"]
    by (simp add: assignOne_def assignStrip_def strip_when_def assignPaint_def)
qed

lemma good_assignStrip: "good (assignStrip k)"
  unfolding assignStrip_def
proof (rule strip_good)
  show "ci_prefix (k @ [61]) t = ci_prefix (k @ [61]) t'" if "upcase t = upcase t'" for t t'
    using by_upper[of "ci_prefix (k @ [61])" t t'] that by simp
qed

lemma good_assignPaint: "good (assignPaint k)"
proof -
  have "masked (head_mask blank (ci_prefix (k @ [61])) 0 (\<lambda>t. length k))"
  proof (rule head_masked)
    show "ucls blank" by simp
    show "\<And>x. blank x \<Longrightarrow> blank x" .
    show "ci_prefix (k @ [61]) t = ci_prefix (k @ [61]) t' \<and> length k = length k" if "upcase t = upcase t'" for t t'
      using by_upper[of "ci_prefix (k @ [61])" t t'] that by simp
    show "0 + length k \<le> length t" if "ci_prefix (k @ [61]) t" for t
      using ci_prefix_length[OF that] by simp
  qed
  from masked_good[OF this] show ?thesis by (simp add: assignPaint_def[abs_def])
qed

lemma scanner_trig: "scanner trig_ok trig_len"
  unfolding scanner_def
proof (intro conjI allI impI)
  fix b b' r r' assume a: "word_before b = word_before b' \<and> upcase r = upcase r'"
  then have "trig_ok b' r = trig_ok b' r'" using by_upper[of "trig_ok b'" r r'] by simp
  then show "trig_ok b r = trig_ok b' r'" using a by (simp add: trig_ok_def)
  show "trig_len r = trig_len r'" using a by_upper[of trig_len r r'] by simp
next
  fix b x r assume "is_space x"
  then show "\<not> trig_ok b (x # r)"
    using ci_prefix_on[of "x # r"] space_not_word by (auto simp: trig_ok_def)
qed

lemma replace_command:
  assumes "is_token func"
  shows "replace_all (commandPatternA func) (\<lambda>m c. upcase func) [] z = commandOne func z"
  unfolding commandOne_def
proof (rule replace_all_mask[where cap = "\<lambda>r. (\<lambda>n. None)(1 \<mapsto> take (length func) r)"])
  show "\<And>b r. exec (commandPatternA func) b r =
    (if cmd_ok func b r then Some (take (length func) r, drop (length func) r, (\<lambda>n. None)(1 \<mapsto> take (length func) r)) else None)"
    by (rule exec_command[OF assms])
  show "\<And>b r. cmd_ok func b r \<Longrightarrow> 0 < length func \<and> length func \<le> length r"
    using assms by (simp add: cmd_ok_def ci_prefix_length is_token_def)
  show "\<And>b r. cmd_ok func b r \<Longrightarrow> upcase func = upcase (take (length func) r)"
    by (simp add: cmd_ok_def ci_prefix_def)
qed

lemma scanner_cmd:
  assumes "is_token func"
  shows "scanner (cmd_ok func) (\<lambda>r. length func)"
  unfolding scanner_def
proof (intro conjI allI impI)
  fix b b' r r' assume a: "word_before b = word_before b' \<and> upcase r = upcase r'"
  then have "cmd_ok func b' r = cmd_ok func b' r'" using by_upper[of "cmd_ok func b'" r r'] by simp
  then show "cmd_ok func b r = cmd_ok func b' r'" using a by (simp add: cmd_ok_def)
  show "length func = length func" by simp
next
  fix b x r assume "is_space x"
  then show "\<not> cmd_ok func b (x # r)"
    using ci_prefix_space_hd[OF assms, of x "[]" r] by (simp add: cmd_ok_def)
qed

lemma good_commandOne: "is_token func \<Longrightarrow> good (commandOne func)"
  using masked_good[OF scanner_masked[OF scanner_cmd]] by (simp add: commandOne_def[abs_def])

lemma rev_upper: "rev (upcase z) = upcase (rev z)"
  by (simp add: upcase_def rev_map)

lemma trimRight_upper: "trimRight (upcase z) = upcase (trimRight z)"
  by (simp add: trimRight_def rev_upper dropWhile_upper)

lemma list_all_upper: "ucls p \<Longrightarrow> list_all p (upcase z) = list_all p z"
  by (induction z) (simp_all add: ucls_def)

lemma last_upper: "z \<noteq> [] \<Longrightarrow> last (upcase z) = ascii_upper (last z)"
  by (simp add: upcase_def last_map)

lemma butlast_upper: "butlast (upcase z) = upcase (butlast z)"
  by (simp add: upcase_def map_butlast)

lemma hd_upper: "z \<noteq> [] \<Longrightarrow> hd (upcase z) = ascii_upper (hd z)"
  by (simp add: upcase_def hd_map)

lemma tl_upper: "tl (upcase z) = upcase (tl z)"
  by (simp add: upcase_def map_tl)

lemma sect_rest_upper: "sect_rest (upcase r) = map_option upcase (sect_rest r)"
proof -
  let ?b = "trimRight r"
  show ?thesis
  proof (cases "?b = [] \<or> last ?b \<noteq> 93")
    case True
    then show ?thesis
      by (auto simp add: sect_rest_def Let_def trimRight_upper last_upper upper_eq_nonword slash_eval)
  next
    case False
    let ?g = "butlast ?b"
    show ?thesis
    proof (cases "?g = []")
      case True
      then show ?thesis using False
        by (simp add: sect_rest_def Let_def trimRight_upper last_upper upper_eq_nonword slash_eval butlast_upper)
    next
      case g: False
      then show ?thesis using False
        by (simp add: sect_rest_def Let_def trimRight_upper last_upper upper_eq_nonword slash_eval
            butlast_upper hd_upper dropWhile_upper list_all_upper)
    qed
  qed
qed

lemma sect_upper:
  "sect (upcase z) = map_option (\<lambda>(w, g). (upcase w, upcase g)) (sect z)"
proof (cases "dropWhile is_space z")
  case Nil
  then show ?thesis by (simp add: sect_def dropWhile_upper del: dropWhile_eq_Nil_conv)
next
  case (Cons x t1)
  then show ?thesis
    by (cases "sect_rest (dropWhile is_word t1)")
       (simp_all add: sect_def dropWhile_upper takeWhile_upper sect_rest_upper upper_eq_nonword slash_eval)
qed

lemma sect_defined_upper: "(sect (upcase z) \<noteq> None) = (sect z \<noteq> None)"
  by (simp add: sect_upper)

lemma sect_dropWhile [simp]: "sect (dropWhile is_space z) = sect z"
  by (simp add: sect_def)

lemma sect_space_Cons: "is_space x \<Longrightarrow> sect (x # z) = sect z"
  by (simp add: sect_def)

lemma takeWhile_stop:
  "r = [] \<or> \<not> p (hd r) \<Longrightarrow> takeWhile p r = [] \<and> dropWhile p r = r"
  by (cases r) auto

lemma takeWhile_append_stop:
  "list_all p w \<Longrightarrow> (r = [] \<or> \<not> p (hd r)) \<Longrightarrow> takeWhile p (w @ r) = w \<and> dropWhile p (w @ r) = r"
  by (induction w) (simp_all add: takeWhile_stop)

lemma sect_SomeD:
  assumes "sect z = Some (w, g)"
  shows "\<exists>sp. dropWhile is_space z = 91 # w @ g @ 93 # sp \<and> list_all is_space sp \<and>
     w \<noteq> [] \<and> list_all is_word w \<and>
     (g = [] \<or> (is_space (hd g) \<and> list_all any_char (dropWhile is_space g)))"
proof -
  from assms obtain t1 where t: "dropWhile is_space z = 91 # t1" and wb: "word_before t1"
    and sr: "sect_rest (dropWhile is_word t1) = Some g" and w: "w = takeWhile is_word t1"
    by (auto simp: sect_def split: list.splits if_splits)
  from sect_rest_SomeD[OF sr] obtain sp where
    d: "dropWhile is_word t1 = g @ 93 # sp" "list_all is_space sp"
       "g = [] \<or> (is_space (hd g) \<and> list_all any_char (dropWhile is_space g))" by blast
  have "t1 = w @ g @ 93 # sp" using w d(1) by (metis takeWhile_dropWhile_id)
  moreover have "w \<noteq> []" using wb w by (cases t1) auto
  moreover have "list_all is_word w" using w by (auto simp: list_all_iff dest: set_takeWhileD)
  ultimately show ?thesis using t d by blast
qed

lemma sect_canonical:
  assumes "w \<noteq> []" "list_all is_word w"
    "g = [] \<or> (is_space (hd g) \<and> list_all any_char (dropWhile is_space g))"
    "list_all is_space ws" "list_all is_space sp"
  shows "sect (ws @ 91 # w @ g @ 93 # sp) = Some (w, g)"
proof -
  have dw: "dropWhile is_space (ws @ 91 # w @ g @ 93 # sp) = 91 # w @ g @ 93 # sp"
    using assms(4) by (simp add: dropWhile_append2 list_all_iff slash_eval)
  have stop: "g @ 93 # sp = [] \<or> \<not> is_word (hd (g @ 93 # sp))"
    using assms(3) by (cases g) (auto simp: slash_eval space_not_word)
  have tw: "takeWhile is_word (w @ g @ 93 # sp) = w" "dropWhile is_word (w @ g @ 93 # sp) = g @ 93 # sp"
    using takeWhile_append_stop[OF assms(2) stop] by simp_all
  have wb: "word_before (w @ g @ 93 # sp)"
    using assms(1,2) by (cases w) simp_all
  show ?thesis
    using assms(3,5) by (simp add: sect_def dw tw wb sect_rest_decomp)
qed

lemma trim_section:
  assumes "sect z = Some (w, g)"
  shows "trim z = 91 # w @ g @ [93]" "sect (trim z) = Some (w, g)"
proof -
  from sect_SomeD[OF assms] obtain sp where
    d: "dropWhile is_space z = 91 # w @ g @ 93 # sp" "list_all is_space sp"
       "w \<noteq> []" "list_all is_word w"
       "g = [] \<or> (is_space (hd g) \<and> list_all any_char (dropWhile is_space g))" by blast
  have "trimRight ((91 # w @ g) @ 93 # sp) = (91 # w @ g) @ [93]"
    using d(2) by (intro trimRight_append_nonspace) (simp_all add: slash_eval)
  then show t: "trim z = 91 # w @ g @ [93]" by (simp add: trim_def d(1))
  show "sect (trim z) = Some (w, g)"
    unfolding t using sect_canonical[OF d(3,4,5), of "[]" "[]"] by simp
qed

lemma trim_idem [simp]: "trim (trim z) = trim z"
  by (simp add: trim_def dropWhile_trimRight[symmetric])

lemma sectionOne_split: "sectionOne z = sectionPaint (sectionStrip z)"
proof (cases "sect z")
  case None
  then show ?thesis
    using paint_head_mask_not[of "\<lambda>t. sect t \<noteq> None" is_space z]
    by (simp add: sectionOne_def sectionStrip_def sectionPaint_def)
next
  case (Some a)
  obtain w g where a: "a = (w, g)" by (cases a)
  let ?y = "91 # w @ g @ [93]"
  from trim_section[OF Some[unfolded a]] have y: "trim z = ?y" "sect ?y = Some (w, g)" by simp_all
  from sect_SomeD[OF y(2)] have wg: "list_all is_word w" "g = [] \<or> is_space (hd g)" by auto
  have stop: "g @ [93] = [] \<or> \<not> is_word (hd (g @ [93]))"
    using wg(2) by (cases g) (auto simp: slash_eval space_not_word)
  have dy: "dropWhile is_space ?y = ?y" "takeWhile is_space ?y = []" by (simp_all add: slash_eval)
  have n: "length (takeWhile is_word (tl ?y)) = length w"
    using takeWhile_append_stop[OF wg(1) stop] by simp
  have "paint (head_mask is_space (\<lambda>t. sect t \<noteq> None) 1 (\<lambda>t. length (takeWhile is_word (tl t))) ?y) ?y =
     takeWhile is_space ?y @ take 1 (dropWhile is_space ?y) @
     upcase (take (length (takeWhile is_word (tl (dropWhile is_space ?y)))) (drop 1 (dropWhile is_space ?y))) @
     drop (1 + length (takeWhile is_word (tl (dropWhile is_space ?y)))) (dropWhile is_space ?y)"
    by (rule paint_head_mask) (simp_all only: dy y(2) n, simp_all)
  then have "sectionPaint ?y = [91] @ upcase w @ g @ [93]"
    unfolding sectionPaint_def by (simp only: dy n) simp
  then show ?thesis using Some a y by (simp add: sectionOne_def sectionStrip_def)
qed

lemma good_sectionPaint: "good sectionPaint"
proof -
  have "masked (head_mask is_space (\<lambda>t. sect t \<noteq> None) 1 (\<lambda>t. length (takeWhile is_word (tl t))))"
  proof (rule head_masked)
    show "ucls is_space" by simp
    show "\<And>x. blank x \<Longrightarrow> is_space x" by (rule blank_space)
    show "(sect t \<noteq> None) = (sect t' \<noteq> None) \<and>
        length (takeWhile is_word (tl t)) = length (takeWhile is_word (tl t'))"
      if "upcase t = upcase t'" for t t'
    proof
      show "(sect t \<noteq> None) = (sect t' \<noteq> None)"
        by (rule by_upper[of "\<lambda>t. sect t \<noteq> None" t t', OF sect_defined_upper that])
      have "upcase (tl t) = upcase (tl t')" using arg_cong[OF that, of tl] by (simp add: tl_upper)
      from takeWhile_upper_eq(1)[OF _ this, of is_word]
      show "length (takeWhile is_word (tl t)) = length (takeWhile is_word (tl t'))" by simp
    qed
    show "1 + length (takeWhile is_word (tl t)) \<le> length t" if "sect t \<noteq> None" for t
    proof (cases t)
      case Nil
      then show ?thesis using that by (simp add: sect_def)
    next
      case (Cons x xs)
      then show ?thesis using length_takeWhile_le[of is_word xs] by simp
    qed
  qed
  from masked_good[OF this] show ?thesis by (simp add: sectionPaint_def[abs_def])
qed

lemma cle_rev: "cle x y \<Longrightarrow> cle (rev x) (rev y)"
  by (simp add: cle_def list_all2_rev)

lemma dropWhile_fixed_iff: "(dropWhile p z = z) = (takeWhile p z = [])"
  using takeWhile_dropWhile_id[of p z] by (metis append_self_conv2 takeWhile_dropWhile_Nil)

lemma trimRight_fixed_cle:
  assumes "trimRight z = z" "cle z z'"
  shows "trimRight z' = z'"
proof -
  have "dropWhile is_space (rev z) = rev z" using assms(1) by (simp add: trimRight_def rev_swap)
  then have "takeWhile is_space (rev z) = []" by (simp add: dropWhile_fixed_iff)
  then have "takeWhile is_space (rev z') = []"
    using cle_takeWhile_length[OF _ cle_rev[OF assms(2)], of is_space] by simp
  then have "dropWhile is_space (rev z') = rev z'" by (simp add: dropWhile_fixed_iff)
  then show ?thesis by (simp add: trimRight_def)
qed

lemma trim_fixed_iff: "(trim z = z) = (dropWhile is_space z = z \<and> trimRight z = z)"
proof
  assume t: "trim z = z"
  have "length (trimRight (dropWhile is_space z)) \<le> length (dropWhile is_space z)"
    by (simp add: trimRight_def) (metis length_dropWhile_le length_rev)
  then have "length z \<le> length (dropWhile is_space z)" using t by (simp add: trim_def)
  then have "length (takeWhile is_space z) = 0"
    using length_takeWhile_dropWhile[of is_space z] by linarith
  then have d: "dropWhile is_space z = z" by (simp add: dropWhile_fixed_iff)
  then show "dropWhile is_space z = z \<and> trimRight z = z" using t by (simp add: trim_def)
next
  assume "dropWhile is_space z = z \<and> trimRight z = z"
  then show "trim z = z" by (simp add: trim_def)
qed

lemma trim_fixed_cle:
  assumes "trim z = z" "cle z z'"
  shows "trim z' = z'"
proof -
  from assms(1) have a: "dropWhile is_space z = z" "trimRight z = z" by (simp_all add: trim_fixed_iff)
  have "takeWhile is_space z' = []"
    using a(1) cle_takeWhile_length[OF _ assms(2), of is_space] by (simp add: dropWhile_fixed_iff)
  then have "dropWhile is_space z' = z'" by (simp add: dropWhile_fixed_iff)
  then show ?thesis using trimRight_fixed_cle[OF a(2) assms(2)] by (simp add: trim_fixed_iff)
qed

lemma stable_sectionStrip: "stable sectionStrip"
  unfolding stable_def
proof (intro conjI allI impI)
  fix z show "sectionStrip (sectionStrip z) = sectionStrip z"
  proof (cases "sect z")
    case None
    then show ?thesis by (simp add: sectionStrip_def)
  next
    case (Some a)
    then show ?thesis using trim_section(2)[of z "fst a" "snd a"] by (simp add: sectionStrip_def)
  qed
next
  fix z z' assume a: "sectionStrip z = z \<and> cle z z'"
  have "upcase z' = upcase z" using a cle_upper by blast
  then have "(sect z' \<noteq> None) = (sect z \<noteq> None)"
    by (rule by_upper[of "\<lambda>t. sect t \<noteq> None" z' z, OF sect_defined_upper])
  then show "sectionStrip z' = z'"
    using a trim_fixed_cle[of z z'] by (auto simp: sectionStrip_def split: if_splits)
next
  fix x z assume a: "blank x \<and> sectionStrip (x # z) = x # z"
  then have sp: "is_space x" by (simp add: blank_space)
  have "sect (x # z) = None"
  proof (rule ccontr)
    assume "sect (x # z) \<noteq> None"
    then have "trim (x # z) = x # z" using a by (simp add: sectionStrip_def)
    then have "dropWhile is_space (x # z) = x # z" by (simp add: trim_fixed_iff)
    then show False using sp length_dropWhile_le[of is_space z] by (simp split: if_splits)
  qed
  then show "sectionStrip z = z" using sp by (simp add: sectionStrip_def sect_space_Cons)
qed



section \<open>The case mapping and the patterns\<close>

lemma cm_ascii: "case_mapping U \<Longrightarrow> a < 128 \<Longrightarrow> U (s @ a # t) = U s @ ascii_upper a # U t"
  unfolding case_mapping_def by blast

lemma cm_Nil: "case_mapping U \<Longrightarrow> U [] = []"
  unfolding case_mapping_def by blast

lemma cm_idem: "case_mapping U \<Longrightarrow> U (U s) = U s"
  unfolding case_mapping_def by blast

lemma cm_other:
  "case_mapping U \<Longrightarrow> s \<noteq> [] \<Longrightarrow> list_all (\<lambda>u. 128 \<le> u \<and> \<not> is_space u) s \<Longrightarrow>
   U s \<noteq> [] \<and> list_all (\<lambda>u. \<not> is_space u \<and> (u < 128 \<longrightarrow> 65 \<le> u \<and> u \<le> 90)) (U s)"
  unfolding case_mapping_def by blast

lemma U_Cons: "case_mapping U \<Longrightarrow> a < 128 \<Longrightarrow> U (a # t) = ascii_upper a # U t"
  using cm_ascii[of U a "[]" t] by (simp add: cm_Nil)

lemma U_snoc: "case_mapping U \<Longrightarrow> a < 128 \<Longrightarrow> U (s @ [a]) = U s @ [ascii_upper a]"
  using cm_ascii[of U a s "[]"] by (simp add: cm_Nil)

lemma U_ascii: "case_mapping U \<Longrightarrow> list_all (\<lambda>a. a < 128) s \<Longrightarrow> U s = upcase s"
  by (induction s) (simp_all add: cm_Nil U_Cons upcase_def)

lemma word_ascii: "is_word a \<Longrightarrow> a < 128"
  by (auto simp: is_word_def)

lemma words_ascii: "list_all is_word k \<Longrightarrow> list_all (\<lambda>a. a < 128) k"
  by (induction k) (simp_all add: word_ascii)

lemma token_ascii: "is_token k \<Longrightarrow> list_all (\<lambda>a. a < 128) k"
  by (simp add: is_token_def words_ascii)

lemma ascii_upper_lt [simp]: "(ascii_upper a < 128) = (a < 128)"
  by (auto simp: ascii_upper_def)

lemma canonicalize_ascii: "case_mapping U \<Longrightarrow> a < 128 \<Longrightarrow> canonicalize U a = ascii_upper a"
  using U_Cons[of U a "[]"] by (simp add: canonicalize_def cm_Nil)

lemma canonicalize_other: "128 \<le> x \<Longrightarrow> 128 \<le> canonicalize U x"
  by (simp add: canonicalize_def Let_def)

lemma ci_ascii:
  assumes "case_mapping U" "a < 128"
  shows "ci U a = cia a"
proof
  fix x
  show "ci U a x = cia a x"
  proof (cases "x < 128")
    case True
    then show ?thesis using assms by (simp add: ci_def cia_def canonicalize_ascii)
  next
    case False
    then have c: "128 \<le> canonicalize U x" by (simp add: canonicalize_other)
    have u: "ascii_upper x = x" using False by (simp add: ascii_upper_def)
    have a: "canonicalize U a = ascii_upper a" using assms by (rule canonicalize_ascii)
    have l: "ascii_upper a < 128" using assms(2) by simp
    have "\<not> ci U a x" unfolding ci_def a using c l by linarith
    moreover have "\<not> cia a x" unfolding cia_def u using False l by linarith
    ultimately show ?thesis by blast
  qed
qed

lemma lit_ascii: "case_mapping U \<Longrightarrow> list_all (\<lambda>a. a < 128) s \<Longrightarrow> lit U s = lita s"
  by (induction s) (simp_all add: lit_def lita_def ci_ascii)

lemma lit_token: "case_mapping U \<Longrightarrow> is_token k \<Longrightarrow> lit U k = lita k"
  by (simp add: lit_ascii token_ascii)

lemma triggerPattern_ascii: "case_mapping U \<Longrightarrow> triggerPattern U = triggerPatternA"
  by (simp add: triggerPattern_def triggerPatternA_def lit_ascii str_def)

lemma assignmentPattern_ascii:
  "case_mapping U \<Longrightarrow> is_token k \<Longrightarrow> assignmentPattern U k = assignmentPatternA k"
  by (simp add: assignmentPattern_def assignmentPatternA_def lit_ascii lit_token str_def)

lemma scopedPattern_ascii:
  "case_mapping U \<Longrightarrow> is_token k \<Longrightarrow> scopedPattern U k = scopedPatternA k"
  by (simp add: scopedPattern_def scopedPatternA_def lit_ascii lit_token str_def)

lemma controlPattern_ascii:
  "case_mapping U \<Longrightarrow> is_token k \<Longrightarrow> controlPattern U k = controlPatternA k"
  by (simp add: controlPattern_def controlPatternA_def lit_token)

lemma sectionPattern_ascii: "case_mapping U \<Longrightarrow> sectionPattern U = sectionPatternA"
  by (simp add: sectionPattern_def sectionPatternA_def lit_ascii str_def)

lemma commandPattern_ascii:
  "case_mapping U \<Longrightarrow> is_token k \<Longrightarrow> commandPattern U k = commandPatternA k"
  by (simp add: commandPattern_def commandPatternA_def lit_ascii lit_token str_def)

lemma ci_prefix_ascii:
  "list_all (\<lambda>a. a < 128) p \<Longrightarrow> ci_prefix p t \<Longrightarrow> list_all (\<lambda>a. a < 128) (take (length p) t)"
proof (induction p arbitrary: t)
  case Nil
  then show ?case by simp
next
  case (Cons a p)
  then obtain x r where t: "t = x # r" by (cases t) simp_all
  from Cons.prems have "ascii_upper x = ascii_upper a" "ci_prefix p r" "a < 128"
    unfolding t by (simp_all add: ci_prefix_Cons)
  moreover then have "x < 128" by (metis ascii_upper_lt)
  ultimately show ?case using Cons.IH[of r] Cons.prems(1) t by simp
qed

lemma U_ci_prefix:
  "case_mapping U \<Longrightarrow> is_token p \<Longrightarrow> ci_prefix p t \<Longrightarrow> U (take (length p) t) = upcase (take (length p) t)"
  by (simp add: U_ascii ci_prefix_ascii token_ascii)

lemma U_words: "case_mapping U \<Longrightarrow> list_all is_word w \<Longrightarrow> U w = upcase w"
  by (simp add: U_ascii words_ascii)

lemma U_token: "case_mapping U \<Longrightarrow> is_token k \<Longrightarrow> U k = upcase k"
  by (simp add: U_ascii token_ascii)

subsection \<open>The rules of the formatter in closed form\<close>

lemma replace_assignment_U:
  assumes "case_mapping U" "is_token kw"
  shows "replace_first (assignmentPattern U kw) (\<lambda>m c. U kw @ str ''='') [] s = assignOne kw s"
proof -
  have "(\<lambda>m c. U kw @ str ''='') = (\<lambda>(m :: jstring) (c :: captures). upcase kw @ [61])"
    using assms by (simp add: U_token str_def)
  then show ?thesis using assms by (simp add: assignmentPattern_ascii replace_assignment)
qed

lemma replace_scoped_U:
  assumes "case_mapping U" "is_token p"
  shows "replace_first (scopedPattern U p) (\<lambda>m c. group c 1 @ U (group c 2)) [] s = scopedOne p s"
  using replace_first_bol[of "[Group 1 [Many is_space], Group 2 (lita p), Lookahead [Or (lita [46]) (lita [61])]]" _ s]
    exec_scoped[OF assms(2), of s] assms
  by (simp add: scopedPattern_ascii scopedPatternA_def scopedOne_def group_def U_ci_prefix)

lemma replace_control_U:
  assumes "case_mapping U" "is_token k"
  shows "replace_first (controlPattern U k) (\<lambda>m c. group c 1 @ U (group c 2)) [] s = controlOne k s"
  using replace_first_bol[of "[Group 1 [Many is_space], Group 2 (lita k), WordBoundary]" _ s]
    exec_control[OF assms(2), of s] assms
  by (simp add: controlPattern_ascii controlPatternA_def controlOne_def group_def U_ci_prefix)

lemma replace_command_U:
  assumes "case_mapping U" "is_token func"
  shows "replace_all (commandPattern U func) (\<lambda>m c. U func) [] z = commandOne func z"
  using assms by (simp add: commandPattern_ascii U_token replace_command)

lemma formatSectionHeaders_closed:
  assumes "case_mapping U"
  shows "formatSectionHeaders U s = sectionOne s"
proof -
  have r: "replace_first sectionPatternA f [] s =
      (case exec sectionPatternA [] s of Some (m, r', c) \<Rightarrow> f m c @ r' | None \<Rightarrow> s)" for f
    by (subst (1 2) sectionPatternA_bol) (rule replace_first_bol)
  show ?thesis
  proof (cases "sect s")
    case None
    then show ?thesis using assms
      by (simp add: formatSectionHeaders_def sectionPattern_ascii r exec_section sectionOne_def)
  next
    case (Some a)
    obtain w g where a: "a = (w, g)" by (cases a)
    from sect_SomeD[OF Some[unfolded a]] have "list_all is_word w" by blast
    then have "U w = upcase w" using assms by (simp add: U_words)
    then show ?thesis using assms Some a
      by (simp add: formatSectionHeaders_def sectionPattern_ascii r exec_section sectionOne_def
          group_def str_def)
  qed
qed

lemma trig_ok_len: "trig_ok b r \<Longrightarrow> 0 < trig_len r \<and> trig_len r \<le> length r"
proof -
  assume ok: "trig_ok b r"
  have "length (takeWhile is_word (drop 4 r)) + length (takeWhile trigger_tail (dropWhile is_word (drop 4 r)))
      \<le> length (drop 4 r)"
  proof -
    have "length (takeWhile is_word (drop 4 r)) + length (dropWhile is_word (drop 4 r)) = length (drop 4 r)"
      by (rule length_takeWhile_dropWhile)
    moreover have "length (takeWhile trigger_tail (dropWhile is_word (drop 4 r))) \<le> length (dropWhile is_word (drop 4 r))"
      by (rule length_takeWhile_le)
    ultimately show ?thesis by linarith
  qed
  moreover have "4 \<le> length r" using ok ci_prefix_length[of "[111, 110, 61, 64]" r] by (simp add: trig_ok_def)
  ultimately show "0 < trig_len r \<and> trig_len r \<le> length r" by (simp add: trig_len_def)
qed

lemma replace_all_trigs:
  "replace_all triggerPatternA (\<lambda>m c. U m) b r = trigs U b r"
proof (induction "length r" arbitrary: b r rule: less_induct)
  case less
  show ?case
  proof (cases r)
    case Nil
    have "\<not> trig_ok b []" using trig_ok_len[of b "[]"] by auto
    then show ?thesis using Nil by (simp add: replace_all.simps[of _ _ b "[]"] exec_trigger)
  next
    case (Cons x xs)
    show ?thesis
    proof (cases "trig_ok b r")
      case True
      let ?n = "trig_len r"
      from trig_ok_len[OF True] have n: "0 < ?n" "?n \<le> length r" by auto
      have IH: "replace_all triggerPatternA (\<lambda>m c. U m) (rev (take ?n r) @ b) (drop ?n r) =
                trigs U (rev (take ?n r) @ b) (drop ?n r)"
        by (rule less) (use n Cons in simp)
      have "replace_all triggerPatternA (\<lambda>m c. U m) b r =
            U (take ?n r) @ replace_all triggerPatternA (\<lambda>m c. U m) (rev (take ?n r) @ b) (drop ?n r)"
        using True n Cons by (subst replace_all.simps) (simp add: exec_trigger)
      then show ?thesis using IH True Cons by simp
    next
      case False
      have IH: "replace_all triggerPatternA (\<lambda>m c. U m) (x # b) xs = trigs U (x # b) xs"
        by (rule less) (use Cons in simp)
      have "replace_all triggerPatternA (\<lambda>m c. U m) b r = x # replace_all triggerPatternA (\<lambda>m c. U m) (x # b) xs"
        using False Cons by (subst replace_all.simps) (simp add: exec_trigger)
      then show ?thesis using False Cons IH by simp
    qed
  qed
qed

lemma formatTriggers_closed: "case_mapping U \<Longrightarrow> formatTriggers U z = trigs U [] z"
  by (simp add: formatTriggers_def triggerPattern_ascii replace_all_trigs)

lemma scoped_chain:
  "case_mapping U \<Longrightarrow> list_all is_token ps \<Longrightarrow> formatScopedAssignments U ps z = chain (map scopedOne ps) z"
  by (induction ps arbitrary: z) (simp_all add: replace_scoped_U del: One_nat_def)

lemma assign_chain:
  "case_mapping U \<Longrightarrow> list_all is_token vs \<Longrightarrow>
   formatAssignmentKeywords U vs z = chain (concat (map (\<lambda>k. [assignStrip k, assignPaint k]) vs)) z"
  by (induction vs arbitrary: z) (simp_all add: replace_assignment_U assignOne_split)

lemma control_chain:
  "case_mapping U \<Longrightarrow> list_all is_token cs \<Longrightarrow> formatControlKeywords U cs z = chain (map controlOne cs) z"
  by (induction cs arbitrary: z) (simp_all add: replace_control_U del: One_nat_def)

lemma command_chain:
  "case_mapping U \<Longrightarrow> list_all is_token fs \<Longrightarrow> commandLoop U fs z = chain (map commandOne fs) z"
  by (induction fs arbitrary: z) (simp_all add: replace_command_U)

lemma commandKeywords_tokens: "list_all is_token commandKeywords"
  by (simp add: commandKeywords_def is_token_def is_word_def str_def)

lemma formatLine_chain:
  assumes "case_mapping U" "tables_ok K" "\<not> isCommentLine z"
  shows "formatLine U K z = chain (restRules K) (trigs U [] (sectionPaint (sectionStrip z)))"
  using assms
  by (simp add: formatLine_def restRules_def tables_ok_def chain_append formatCommandCalls_def
      command_chain[OF _ commandKeywords_tokens] control_chain assign_chain scoped_chain
      formatSectionHeaders_closed sectionOne_split formatTriggers_closed)

lemma good_restRules: "\<forall>R\<in>set (restRules K). good R"
  using commandKeywords_tokens
  by (auto simp: restRules_def good_scopedOne
      good_assignStrip good_assignPaint good_controlOne good_commandOne list_all_iff)

lemma restRules_shp: "\<forall>R\<in>set (restRules K). \<forall>z. shp z (R z)"
  using good_restRules goodD(2) by blast

subsection \<open>The example case mapping\<close>

lemma latin1_upper_cases:
  "latin1_upper a = [83, 83] \<and> a = 223 \<or> latin1_upper a = [924] \<and> a = 181 \<or>
   latin1_upper a = [376] \<and> a = 255 \<or>
   latin1_upper a = [a - 32] \<and> ((97 \<le> a \<and> a \<le> 122) \<or> (224 \<le> a \<and> a \<le> 254 \<and> a \<noteq> 247)) \<or>
   latin1_upper a = [a] \<and> a \<noteq> 223 \<and> a \<noteq> 181 \<and> a \<noteq> 255 \<and>
     \<not> ((97 \<le> a \<and> a \<le> 122) \<or> (224 \<le> a \<and> a \<le> 254 \<and> a \<noteq> 247))"
  by (simp add: latin1_upper_def str_def)

lemma latin1_upper_same:
  "a \<noteq> 223 \<Longrightarrow> a \<noteq> 181 \<Longrightarrow> a \<noteq> 255 \<Longrightarrow> \<not> (97 \<le> a \<and> a \<le> 122) \<Longrightarrow>
   \<not> (224 \<le> a \<and> a \<le> 254 \<and> a \<noteq> 247) \<Longrightarrow> latin1_upper a = [a]"
  by (auto simp add: latin1_upper_def)

lemma latin1_upper_fixed: "u \<in> set (latin1_upper a) \<Longrightarrow> latin1_upper u = [u]"
  using latin1_upper_cases[of a]
  by (elim disjE conjE) (simp_all, (rule latin1_upper_same; arith)+)

lemma latin1_upper_ascii: "a < 128 \<Longrightarrow> latin1_upper a = [ascii_upper a]"
  by (simp add: latin1_upper_def ascii_upper_def)

lemma latin1_upper_other:
  assumes "128 \<le> a" "\<not> is_space a"
  shows "list_all (\<lambda>u. \<not> is_space u \<and> (u < 128 \<longrightarrow> 65 \<le> u \<and> u \<le> 90)) (latin1_upper a)"
proof -
  have s: "\<not> is_space 83" "\<not> is_space 924" "\<not> is_space 376" by (simp_all add: is_space_def)
  have d: "\<not> is_space (a - 32) \<and> \<not> a - 32 < 128" if "224 \<le> a" "a \<le> 254"
    using that by (simp add: is_space_def) arith
  show ?thesis
    using latin1_upper_cases[of a] assms s d
    by (elim disjE conjE) simp_all
qed

lemma exampleUpperCase_fixed: "(\<And>u. u \<in> set s \<Longrightarrow> latin1_upper u = [u]) \<Longrightarrow> exampleUpperCase s = s"
  by (induction s) (simp_all add: exampleUpperCase_def)

lemma case_mapping_example: "case_mapping exampleUpperCase"
  unfolding case_mapping_def
proof (intro conjI allI impI)
  fix s a t assume "(a::nat) < 128"
  then show "exampleUpperCase (s @ a # t) = exampleUpperCase s @ ascii_upper a # exampleUpperCase t"
    by (simp add: exampleUpperCase_def latin1_upper_ascii)
next
  show "exampleUpperCase [] = []" by (simp add: exampleUpperCase_def)
next
  fix s
  show "exampleUpperCase (exampleUpperCase s) = exampleUpperCase s"
    by (rule exampleUpperCase_fixed) (auto simp: exampleUpperCase_def dest: latin1_upper_fixed)
next
  fix s :: jstring
  assume a: "s \<noteq> [] \<and> list_all (\<lambda>u. 128 \<le> u \<and> \<not> is_space u) s"
  have ne: "latin1_upper x \<noteq> []" for x using latin1_upper_cases[of x] by auto
  show "exampleUpperCase s \<noteq> []"
    using a ne by (cases s) (simp_all add: exampleUpperCase_def)
  from a have "list_all (\<lambda>u. 128 \<le> u \<and> \<not> is_space u) s" by blast
  then show "list_all (\<lambda>u. \<not> is_space u \<and> (u < 128 \<longrightarrow> 65 \<le> u \<and> u \<le> 90)) (exampleUpperCase s)"
    by (induction s) (simp_all add: exampleUpperCase_def latin1_upper_other)
qed


section \<open>The claims\<close>


text \<open>
  Claim C2 (comment invariance). A line whose text, without the white space around it,
  starts with \<open>//\<close> is returned as it is, with only its trailing white space removed: no
  rule rewrites a character of it. White space is that of \<open>trim\<close>, so a line that starts with
  a no-break space and \<open>//\<close> is such a line. The theorem holds for every function
  \<open>toUpperCase\<close> and all keyword tables.
\<close>

theorem comment_lines_unchanged:
  assumes "startsWith (trim L) (str ''//'')"
  shows "formatLine U K (trimRight L) = trimRight L"
  using assms by (simp add: formatLine_def isCommentLine_def)

theorem comment_lines_unchanged_witness:
  "startsWith (trim (160 # str '' // on=@create  '')) (str ''//'') \<and>
   formatLine exampleUpperCase exampleConstants (trimRight (160 # str '' // on=@create  '')) =
     160 # str '' // on=@create''"
  using comment_lines_unchanged[of "160 # str '' // on=@create  ''" exampleUpperCase exampleConstants]
  by (simp add: string_eval char_eval)


text \<open>
  Claim C7 (edit completeness). For a document of \<open>N\<close> lines, all with a text,
  \<open>provideDocumentFormattingEdits\<close> returns exactly \<open>N\<close> edits in the order of the lines. The edit
  of line \<open>i\<close> runs from column 0 to the length of the untrimmed line, and its new text is
  \<open>formatLine\<close> of the line without its trailing white space, whether or not that differs
  from the line.
\<close>

theorem one_edit_per_line:
  "provideDocumentFormattingEdits U K (map Some ls) =
     Inr (map (\<lambda>i. lineEdit U K i (ls ! i)) [0..<length ls]) \<and>
   length (map (\<lambda>i. lineEdit U K i (ls ! i)) [0..<length ls]) = length ls"
  by (auto simp add: provideDocumentFormattingEdits_closed)

theorem one_edit_per_line_witness:
  "provideDocumentFormattingEdits exampleUpperCase exampleConstants
     [Some (str ''// note  ''), Some [], Some (str ''  begin  '')] =
     Inr [\<lparr>edit_range = \<lparr>range_start = \<lparr>pos_line = 0, pos_character = 0\<rparr>,
                          range_end = \<lparr>pos_line = 0, pos_character = 9\<rparr>\<rparr>,
            newText = str ''// note''\<rparr>,
          \<lparr>edit_range = \<lparr>range_start = \<lparr>pos_line = 1, pos_character = 0\<rparr>,
                          range_end = \<lparr>pos_line = 1, pos_character = 0\<rparr>\<rparr>,
            newText = []\<rparr>,
          \<lparr>edit_range = \<lparr>range_start = \<lparr>pos_line = 2, pos_character = 0\<rparr>,
                          range_end = \<lparr>pos_line = 2, pos_character = 9\<rparr>\<rparr>,
            newText = str ''  BEGIN''\<rparr>]"
  using one_edit_per_line[of exampleUpperCase exampleConstants "[str ''// note  '', [], str ''  begin  '']"]
  by (simp add: upt_rec lineEdit_def format_eval)


text \<open>
  Claim C8 (null-line tolerance), as stated: a line whose text is \<open>null\<close> or absent is
  formatted as an empty line and no error is raised. The formatter has no such case: it
  calls \<open>trimRight\<close> on the text and raises a \<open>TypeError\<close>.
\<close>

theorem null_text_counterexample:
  "provideDocumentFormattingEdits exampleUpperCase exampleConstants [Some (str ''begin''), None] =
     Inl TypeError"
  by (simp add: provideDocumentFormattingEdits_closed)

text \<open>
  Claim C8, amended. Formatting raises a \<open>TypeError\<close> and returns no edit exactly when some
  line of the document has a text that is \<open>null\<close> or absent; when every line has a text, it
  returns one edit per line and raises nothing.
\<close>

theorem null_text_raises:
  "(provideDocumentFormattingEdits U K doc = Inl TypeError) = (None \<in> set doc) \<and>
   (\<exists>edits. provideDocumentFormattingEdits U K doc = Inr edits \<and> length edits = length doc)
     = (None \<notin> set doc)"
  by (simp add: provideDocumentFormattingEdits_closed)

theorem null_text_raises_witness:
  "provideDocumentFormattingEdits exampleUpperCase exampleConstants [None] = Inl TypeError \<and>
   (\<exists>edits. provideDocumentFormattingEdits exampleUpperCase exampleConstants [Some (str ''begin'')] =
      Inr edits \<and> length edits = 1)"
  using null_text_raises[of exampleUpperCase exampleConstants "[None]"]
    null_text_raises[of exampleUpperCase exampleConstants "[Some (str ''begin'')]"]
  by simp

end
